theory Spec2Isabelle
  imports Main "HOL-Library.Multiset" "HOL-Library.Sublist"
begin

section \<open>Cards and hand totals\<close>

text \<open>
  The server builds its cards from two fixed lists of strings (\<open>suits\<close> and \<open>ranks\<close> in
  \<open>createDeck\<close>); the thirteen rank strings and four suit strings are the constructors below.
  \<open>rankText\<close> and \<open>suitText\<close> give the strings back where the server prints a card.
\<close>

datatype suit = Hearts | Diamonds | Clubs | Spades

datatype rank = Two | Three | Four | Five | Six | Seven | Eight | Nine | Ten
  | Jack | Queen | King | Ace

record card =
  rank :: rank
  suit :: suit

fun rankText :: "rank \<Rightarrow> string" where
  "rankText Two = ''2''"
| "rankText Three = ''3''"
| "rankText Four = ''4''"
| "rankText Five = ''5''"
| "rankText Six = ''6''"
| "rankText Seven = ''7''"
| "rankText Eight = ''8''"
| "rankText Nine = ''9''"
| "rankText Ten = ''10''"
| "rankText Jack = ''J''"
| "rankText Queen = ''Q''"
| "rankText King = ''K''"
| "rankText Ace = ''A''"

fun suitText :: "suit \<Rightarrow> string" where
  "suitText Hearts = ''Hearts''"
| "suitText Diamonds = ''Diamonds''"
| "suitText Clubs = ''Clubs''"
| "suitText Spades = ''Spades''"

text \<open>
  \<open>getCardValue(card, currentTotal)\<close>: the Ace test comes first, then the three face ranks,
  then \<open>parseInt\<close> of a numeral rank.
\<close>

fun getCardValue :: "card \<Rightarrow> int \<Rightarrow> int" where
  "getCardValue c currentTotal =
     (case rank c of
        Ace \<Rightarrow> (if currentTotal + 11 > 21 then 1 else 11)
      | King \<Rightarrow> 10
      | Queen \<Rightarrow> 10
      | Jack \<Rightarrow> 10
      | Two \<Rightarrow> 2
      | Three \<Rightarrow> 3
      | Four \<Rightarrow> 4
      | Five \<Rightarrow> 5
      | Six \<Rightarrow> 6
      | Seven \<Rightarrow> 7
      | Eight \<Rightarrow> 8
      | Nine \<Rightarrow> 9
      | Ten \<Rightarrow> 10)"

text \<open>
  \<open>calculateHandTotal(hand)\<close>. \<open>foldHand\<close> is the \<open>for\<close> loop, carrying \<open>total\<close> (here \<open>tot\<close>) and
  \<open>numAces\<close>; \<open>numAces\<close> is incremented for every Ace, whatever value the Ace was given.
  \<open>adjustAces\<close> is the \<open>while\<close> loop.
\<close>

fun foldHand :: "card list \<Rightarrow> int \<Rightarrow> nat \<Rightarrow> int \<times> nat" where
  "foldHand [] tot numAces = (tot, numAces)"
| "foldHand (c # rest) tot numAces =
     foldHand rest (tot + getCardValue c tot)
       (if rank c = Ace then numAces + 1 else numAces)"

function adjustAces :: "int \<Rightarrow> nat \<Rightarrow> int" where
  "adjustAces tot numAces =
     (if tot > 21 \<and> numAces > 0 then adjustAces (tot - 10) (numAces - 1) else tot)"
  by pat_completeness auto
termination
  by (relation "measure (\<lambda>(tot, numAces). numAces)") auto

declare adjustAces.simps [simp del]

definition calculateHandTotal :: "card list \<Rightarrow> int" where
  "calculateHandTotal hand =
     (case foldHand hand 0 0 of (tot, numAces) \<Rightarrow> adjustAces tot numAces)"

subsection \<open>Standard blackjack scoring, as the specification words it\<close>

text \<open>
  Every way of counting each Ace as 1 or as 11 gives one candidate total; the standard total
  is the largest candidate not above 21 when there is one, and the smallest candidate (every
  Ace as 1) otherwise.
\<close>

fun plainValue :: "rank \<Rightarrow> int" where
  "plainValue Two = 2"
| "plainValue Three = 3"
| "plainValue Four = 4"
| "plainValue Five = 5"
| "plainValue Six = 6"
| "plainValue Seven = 7"
| "plainValue Eight = 8"
| "plainValue Nine = 9"
| "plainValue Ten = 10"
| "plainValue Jack = 10"
| "plainValue Queen = 10"
| "plainValue King = 10"
| "plainValue Ace = 1"

fun aceAssignmentTotals :: "card list \<Rightarrow> int list" where
  "aceAssignmentTotals [] = [0]"
| "aceAssignmentTotals (c # cs) =
     (if rank c = Ace
      then map (\<lambda>t. 1 + t) (aceAssignmentTotals cs) @ map (\<lambda>t. 11 + t) (aceAssignmentTotals cs)
      else map (\<lambda>t. plainValue (rank c) + t) (aceAssignmentTotals cs))"

definition standardTotal :: "card list \<Rightarrow> int" where
  "standardTotal hand =
     (let candidates = aceAssignmentTotals hand;
          fitting = filter (\<lambda>t. t \<le> 21) candidates
      in if fitting = [] then Min (set candidates) else Max (set fitting))"

definition hardTotal :: "card list \<Rightarrow> int" where
  "hardTotal hand = sum_list (map (\<lambda>c. plainValue (rank c)) hand)"

definition aceCount :: "card list \<Rightarrow> nat" where
  "aceCount hand = length (filter (\<lambda>c. rank c = Ace) hand)"

section \<open>Results of operations\<close>

text \<open>
  The server throws only \<open>TypeError\<close>s (a property read on \<open>undefined\<close>). A thrown
  error ends the handler that was running; the model returns it as \<open>Inl\<close>. The one loop of the
  server that can spin for ever is the skipping loop of \<open>advanceTurn\<close>; \<open>Diverges\<close> is the
  result of a call that never returns.
\<close>

datatype error = TypeError | Diverges

definition bindE :: "error + 'a \<Rightarrow> ('a \<Rightarrow> error + 'b) \<Rightarrow> error + 'b" where
  "bindE r f = (case r of Inl e \<Rightarrow> Inl e | Inr x \<Rightarrow> f x)"

section \<open>The deck\<close>

definition suits :: "suit list" where
  "suits = [Hearts, Diamonds, Clubs, Spades]"

definition ranks :: "rank list" where
  "ranks = [Two, Three, Four, Five, Six, Seven, Eight, Nine, Ten, Jack, Queen, King, Ace]"

definition createDeck :: "card list" where
  "createDeck = concat (map (\<lambda>s. map (\<lambda>r. \<lparr>rank = r, suit = s\<rparr>) ranks) suits)"

text \<open>
  \<open>shuffleDeck\<close>: for \<open>i\<close> from \<open>length - 1\<close> down to 1, draw
  \<open>j = floor (random () * (i + 1))\<close> and swap positions \<open>i\<close> and \<open>j\<close>. The random source is
  the parameter \<open>rnd\<close>: \<open>rnd i\<close> is the draw of iteration \<open>i\<close> as a natural number, brought
  into the range \<open>0 .. i\<close> that the floor of the product always lies in.
\<close>

fun shuffleLoop :: "(nat \<Rightarrow> nat) \<Rightarrow> nat \<Rightarrow> card list \<Rightarrow> card list" where
  "shuffleLoop rnd 0 deck = deck"
| "shuffleLoop rnd (Suc k) deck =
     (let i = Suc k;
          j = rnd i mod (i + 1)
      in shuffleLoop rnd k (deck[i := deck ! j, j := deck ! i]))"

definition shuffleDeck :: "(nat \<Rightarrow> nat) \<Rightarrow> card list \<Rightarrow> card list" where
  "shuffleDeck rnd deck = shuffleLoop rnd (length deck - 1) deck"

text \<open>
  \<open>deck.pop()\<close> takes the last card. On an empty deck it yields \<open>undefined\<close>, and every caller
  goes on to \<open>calculateHandTotal\<close> of a hand that now holds \<open>undefined\<close>, whose \<open>card.rank\<close>
  throws.
\<close>

definition popCard :: "card list \<Rightarrow> error + (card \<times> card list)" where
  "popCard deck = (if deck = [] then Inl TypeError else Inr (last deck, butlast deck))"

section \<open>Session state\<close>

text \<open>
  The dealer object has \<open>hand\<close>, \<open>score\<close> and \<open>isBusted\<close>; a player object has these and
  \<open>isStanding\<close> and \<open>chips\<close>. \<open>determineGameOutcome\<close> also reads a property \<open>id\<close> of the
  player objects: \<open>id'\<close> is that property, \<open>None\<close> while it is undefined.

  The session object keeps the two player objects under keys computed from the connection
  identities, next to its fixed properties. \<open>seats\<close> is the part of the object under those
  keys. This agrees with the object as long as no identity is the name of a fixed property
  or the string \<open>undefined\<close>; identities are the transport's socket ids.
  \<open>gameOver\<close>, \<open>gameOverMessage\<close> and \<open>gameOverType\<close> are undefined until the round
  resolves and are read through \<open>|| false\<close> and \<open>|| ''\<close>: \<open>False\<close> and the empty string stand
  for undefined.
\<close>

record participant =
  hand :: "card list"
  score :: int
  isBusted :: bool

record player_state = participant +
  isStanding :: bool
  chips :: int
  id' :: "string option"

record game =
  deck :: "card list"
  players :: "string list"
  seats :: "string \<rightharpoonup> player_state"
  dealer :: participant
  currentTurn :: string
  turnOrder :: "string list"
  turnIndex :: nat
  message :: string
  gameOver :: bool
  gameOverMessage :: string
  gameOverType :: string

definition newPlayer :: "card list \<Rightarrow> player_state" where
  "newPlayer playerHand =
     \<lparr>hand = playerHand, score = calculateHandTotal playerHand, isBusted = False,
      isStanding = False, chips = 1000, id' = None\<rparr>"

definition initializeGame :: "(nat \<Rightarrow> nat) \<Rightarrow> string \<Rightarrow> string \<Rightarrow> error + game" where
  "initializeGame rnd player1Id player2Id =
     bindE (popCard (shuffleDeck rnd createDeck)) (\<lambda>(c1, deck1).
     bindE (popCard deck1) (\<lambda>(c2, deck2).
     bindE (popCard deck2) (\<lambda>(c3, deck3).
     bindE (popCard deck3) (\<lambda>(c4, deck4).
     bindE (popCard deck4) (\<lambda>(c5, deck5).
     bindE (popCard deck5) (\<lambda>(c6, deck6).
       let player1Hand = [c1, c4];
           player2Hand = [c2, c5];
           dealerHand = [c3, c6]
       in Inr \<lparr>deck = deck6,
                players = [player1Id, player2Id],
                seats = [player1Id \<mapsto> newPlayer player1Hand, player2Id \<mapsto> newPlayer player2Hand],
                dealer = \<lparr>hand = dealerHand, score = calculateHandTotal dealerHand,
                          isBusted = False\<rparr>,
                currentTurn = player1Id,
                turnOrder = [player1Id, player2Id, ''dealer''],
                turnIndex = 0,
                message = ''Game started! Player 1's turn.'',
                gameOver = False,
                gameOverMessage = [],
                gameOverType = []\<rparr>))))))"

section \<open>Per-recipient views\<close>

text \<open>\<open>Placeholder\<close> is the object \<open>{ rank: '?', suit: '?' }\<close>.\<close>

datatype shown_card = Face card | Placeholder

record player_view =
  pv_id :: string
  pv_hand :: "card list"
  pv_score :: int
  pv_isStanding :: bool
  pv_isBusted :: bool
  pv_chips :: int

record opponent_view =
  ov_id :: string
  ov_hand :: "card list"
  ov_score :: int
  ov_hideFirstCard :: bool
  ov_isStanding :: bool
  ov_isBusted :: bool

record dealer_view =
  dv_hand :: "shown_card list"
  dv_score :: int
  dv_hideSecondCard :: bool

record game_view =
  playerState :: player_view
  opponentState :: opponent_view
  dealerState :: dealer_view
  gv_currentTurn :: string
  gv_message :: string
  gv_gameOver :: bool
  gv_gameOverMessage :: string
  gv_gameOverType :: string

text \<open>
  \<open>getGameStateForPlayer(game, playerId)\<close>. The reads that throw: \<open>currentPlayer.hand\<close> when
  the recipient has no player object, \<open>opponentPlayer.hand\<close> when \<open>find\<close> yields no other
  identity or that identity has no player object, and \<open>card.rank\<close> in \<open>getCardValue\<close> when
  the dealer's hand is empty.
\<close>

definition getGameStateForPlayer :: "game \<Rightarrow> string \<Rightarrow> error + game_view" where
  "getGameStateForPlayer game playerId =
     (case seats game playerId of
        None \<Rightarrow> Inl TypeError
      | Some currentPlayer \<Rightarrow>
         (case find (\<lambda>i. i \<noteq> playerId) (players game) of
            None \<Rightarrow> Inl TypeError
          | Some opponentId \<Rightarrow>
             (case seats game opponentId of
                None \<Rightarrow> Inl TypeError
              | Some opponentPlayer \<Rightarrow>
                 (case hand (dealer game) of
                    [] \<Rightarrow> Inl TypeError
                  | firstCard # _ \<Rightarrow>
                     Inr \<lparr>playerState =
                            \<lparr>pv_id = playerId, pv_hand = hand currentPlayer,
                             pv_score = score currentPlayer,
                             pv_isStanding = isStanding currentPlayer,
                             pv_isBusted = isBusted currentPlayer,
                             pv_chips = chips currentPlayer\<rparr>,
                          opponentState =
                            \<lparr>ov_id = opponentId, ov_hand = hand opponentPlayer,
                             ov_score = score opponentPlayer, ov_hideFirstCard = False,
                             ov_isStanding = isStanding opponentPlayer,
                             ov_isBusted = isBusted opponentPlayer\<rparr>,
                          dealerState =
                            \<lparr>dv_hand = [Face firstCard, Placeholder],
                             dv_score = getCardValue firstCard 0,
                             dv_hideSecondCard = True\<rparr>,
                          gv_currentTurn = currentTurn game,
                          gv_message = message game,
                          gv_gameOver = gameOver game,
                          gv_gameOverMessage = gameOverMessage game,
                          gv_gameOverType = gameOverType game\<rparr>))))"

section \<open>The turn engine\<close>

text \<open>
  \<open>handleDealerTurn\<close>: the score is recomputed, then the dealer draws while it is below 17.
  Each round of the loop shortens the deck, and an empty deck throws.
\<close>

function dealerLoop :: "game \<Rightarrow> error + game" where
  "dealerLoop game =
     (if score (dealer game) < 17 then
        (if deck game = [] then Inl TypeError
         else
           let newCard = last (deck game);
               dealerHand = hand (dealer game) @ [newCard]
           in dealerLoop
               (game\<lparr>deck := butlast (deck game),
                     dealer := (dealer game)\<lparr>hand := dealerHand,
                                             score := calculateHandTotal dealerHand\<rparr>,
                     message := message game @ '' Dealer hits and gets '' @
                        rankText (rank newCard) @ '' of '' @ suitText (suit newCard) @ ''.''\<rparr>))
      else Inr game)"
  by pat_completeness auto
termination
  by (relation "measure (\<lambda>game. length (deck game))") auto

declare dealerLoop.simps [simp del]

definition handleDealerTurn :: "game \<Rightarrow> error + game" where
  "handleDealerTurn game =
     bindE (dealerLoop
              (game\<lparr>message := ''Dealer's turn...'',
                    dealer := (dealer game)\<lparr>score := calculateHandTotal (hand (dealer game))\<rparr>\<rparr>))
       (\<lambda>game1.
          if score (dealer game1) > 21
          then Inr (game1\<lparr>dealer := (dealer game1)\<lparr>isBusted := True\<rparr>,
                          message := message game1 @ '' Dealer busts!''\<rparr>)
          else Inr (game1\<lparr>message := message game1 @ '' Dealer stands.''\<rparr>))"

text \<open>
  \<open>determineGameOutcome\<close>. A template literal prints an undefined property as the text
  \<open>undefined\<close>. \<open>judgePlayer\<close> is the \<open>if\<close> chain that the function runs once for each
  player, on the message and type built so far.
\<close>

definition renderId :: "string option \<Rightarrow> string" where
  "renderId x = (case x of None \<Rightarrow> ''undefined'' | Some s \<Rightarrow> s)"

definition judgePlayer ::
  "player_state \<Rightarrow> participant \<Rightarrow> string \<times> string \<Rightarrow> string \<times> string" where
  "judgePlayer player dealerObj acc =
     (case acc of (msg, type) \<Rightarrow>
        if isBusted player then (msg @ renderId (id' player) @ '' busted. '', type)
        else if isBusted dealerObj \<or> score player > score dealerObj
          then (msg @ renderId (id' player) @ '' wins! '', ''win'')
        else if score player < score dealerObj
          then (msg @ renderId (id' player) @ '' loses. '', ''lose'')
        else (msg @ renderId (id' player) @ '' pushes. '', type))"

definition playerAt :: "game \<Rightarrow> nat \<Rightarrow> player_state option" where
  "playerAt game k =
     (if k < length (players game) then seats game (players game ! k) else None)"

definition determineGameOutcome :: "game \<Rightarrow> error + game" where
  "determineGameOutcome game =
     (case playerAt game 0 of
        None \<Rightarrow> Inl TypeError
      | Some player1 \<Rightarrow>
         (case playerAt game 1 of
            None \<Rightarrow> Inl TypeError
          | Some player2 \<Rightarrow>
             (case judgePlayer player2 (dealer game)
                     (judgePlayer player1 (dealer game) (''Round over! '', ''info'')) of
                (msg, type) \<Rightarrow>
                  Inr (game\<lparr>gameOver := True, gameOverMessage := msg,
                            gameOverType := type\<rparr>))))"

text \<open>
  \<open>advanceTurn\<close>. \<open>skipTurns\<close> is its \<open>while\<close> loop, started at the index after the current
  one; it does not change the session, so on a session whose turn order holds no entry to
  stop at it never returns. An index outside the turn order reads \<open>undefined\<close>, which is not
  the dealer and has no player object.
\<close>

partial_function (option) skipTurns :: "game \<Rightarrow> nat \<Rightarrow> (error + nat) option" where
  "skipTurns game nextTurnIndex =
     (if nextTurnIndex < length (turnOrder game) then
        (if turnOrder game ! nextTurnIndex \<noteq> ''dealer'' then
           (case seats game (turnOrder game ! nextTurnIndex) of
              None \<Rightarrow> Some (Inl TypeError)
            | Some nextPlayer \<Rightarrow>
               if isBusted nextPlayer \<or> isStanding nextPlayer
               then skipTurns game ((nextTurnIndex + 1) mod length (turnOrder game))
               else Some (Inr nextTurnIndex))
         else Some (Inr nextTurnIndex))
      else Some (Inl TypeError))"

definition advanceTurn :: "game \<Rightarrow> error + game" where
  "advanceTurn game =
     (case skipTurns game ((turnIndex game + 1) mod length (turnOrder game)) of
        None \<Rightarrow> Inl Diverges
      | Some (Inl e) \<Rightarrow> Inl e
      | Some (Inr nextTurnIndex) \<Rightarrow>
         (let game1 = game\<lparr>turnIndex := nextTurnIndex,
                           currentTurn := turnOrder game ! nextTurnIndex\<rparr>
          in if currentTurn game1 = ''dealer''
             then bindE (handleDealerTurn game1) determineGameOutcome
             else Inr (game1\<lparr>message := ''It's '' @ currentTurn game1 @ '''s turn.''\<rparr>)))"

definition handleHit :: "game \<Rightarrow> string \<Rightarrow> error + game" where
  "handleHit game playerId =
     (if currentTurn game \<noteq> playerId then Inr game
      else
        (case seats game playerId of
           None \<Rightarrow> Inl TypeError
         | Some player \<Rightarrow>
            if isStanding player \<or> isBusted player then Inr game
            else if deck game = [] then Inl TypeError
            else
              let newCard = last (deck game);
                  playerHand = hand player @ [newCard];
                  player1 = player\<lparr>hand := playerHand, score := calculateHandTotal playerHand\<rparr>
              in if score player1 > 21
                 then advanceTurn
                        (game\<lparr>deck := butlast (deck game),
                              seats := (seats game)(playerId \<mapsto> player1\<lparr>isBusted := True\<rparr>),
                              message := playerId @ '' busted!''\<rparr>)
                 else Inr (game\<lparr>deck := butlast (deck game),
                                 seats := (seats game)(playerId \<mapsto> player1),
                                 message := playerId @ '' hits and gets '' @
                                   rankText (rank newCard) @ '' of '' @
                                   suitText (suit newCard) @ ''.''\<rparr>)))"

definition handleStand :: "game \<Rightarrow> string \<Rightarrow> error + game" where
  "handleStand game playerId =
     (if currentTurn game \<noteq> playerId then Inr game
      else
        (case seats game playerId of
           None \<Rightarrow> Inl TypeError
         | Some player \<Rightarrow>
            if isStanding player \<or> isBusted player then Inr game
            else advanceTurn
                   (game\<lparr>seats := (seats game)(playerId \<mapsto> player\<lparr>isStanding := True\<rparr>),
                         message := playerId @ '' stands.''\<rparr>)))"

section \<open>The connection handlers\<close>

text \<open>
  The process-wide state is the matchmaking queue and the session store \<open>activeGames\<close>, an
  object keyed by room identifier; its keys are visited in insertion order, so it is a list of
  pairs with distinct keys. What a handler sends is the list of its \<open>emit\<close> calls in order,
  each with the room it is addressed to: a socket's own identity addresses that socket alone,
  a game room both of its members.
\<close>

record server =
  matchmakingQueue :: "string list"
  activeGames :: "(string \<times> game) list"

datatype event =
    MatchFound string
  | PvpGameUpdate game_view
  | PvpGameUpdateError string string
  | PvpGameOver string string "game_view option"

type_synonym emit = "string \<times> event"

definition setGame :: "string \<Rightarrow> game \<Rightarrow> (string \<times> game) list \<Rightarrow> (string \<times> game) list" where
  "setGame roomId game store =
     (if roomId \<in> fst ` set store
      then map (\<lambda>(r, g). if r = roomId then (r, game) else (r, g)) store
      else store @ [(roomId, game)])"


text \<open>
  \<open>requestMatch\<close>. Joining the two sockets to the game room is the transport's work and
  leaves no trace in the state. The session is stored before the first view is computed.
\<close>

definition requestMatch :: "(nat \<Rightarrow> nat) \<Rightarrow> server \<Rightarrow> string \<Rightarrow> error + (server \<times> emit list)" where
  "requestMatch rnd srv socketId =
     (let queue = matchmakingQueue srv @ [socketId]
      in if length queue \<ge> 2 then
           (let player1Id = queue ! 0;
                player2Id = queue ! 1;
                gameRoomId = ''game-'' @ player1Id @ ''-'' @ player2Id
            in bindE (initializeGame rnd player1Id player2Id) (\<lambda>newGame.
               bindE (getGameStateForPlayer newGame player1Id) (\<lambda>view1.
               bindE (getGameStateForPlayer newGame player2Id) (\<lambda>view2.
                 Inr (srv\<lparr>matchmakingQueue := drop 2 queue,
                          activeGames := setGame gameRoomId newGame (activeGames srv)\<rparr>,
                      [(player1Id, MatchFound player2Id),
                       (player2Id, MatchFound player1Id),
                       (player1Id, PvpGameUpdate view1),
                       (player2Id, PvpGameUpdate view2)])))))
         else Inr (srv\<lparr>matchmakingQueue := queue\<rparr>, []))"

text \<open>\<open>indexOf\<close> and \<open>splice (index, 1)\<close> take out the first occurrence.\<close>

definition cancelMatchmaking :: "server \<Rightarrow> string \<Rightarrow> server" where
  "cancelMatchmaking srv socketId =
     srv\<lparr>matchmakingQueue := remove1 socketId (matchmakingQueue srv)\<rparr>"


text \<open>
  \<open>playerAction\<close>. \<open>socketRooms\<close> is \<open>Object.keys (socket.rooms)\<close>, which the transport
  provides: the names of the socket's rooms where \<open>socket.rooms\<close> is a plain object, and the
  empty list where it is a \<open>Set\<close>, which has no enumerable keys of its own. \<open>players[0]\<close> and
  \<open>players[1]\<close> of a session with fewer identities are \<open>undefined\<close>, for which
  \<open>getGameStateForPlayer\<close> throws.
\<close>

definition viewAt :: "game \<Rightarrow> nat \<Rightarrow> error + (string \<times> game_view)" where
  "viewAt game k =
     (if k < length (players game)
      then bindE (getGameStateForPlayer game (players game ! k))
             (\<lambda>v. Inr (players game ! k, v))
      else Inl TypeError)"

definition playerAction ::
  "server \<Rightarrow> string \<Rightarrow> string list \<Rightarrow> string \<Rightarrow> error + (server \<times> emit list)" where
  "playerAction srv socketId socketRooms action =
     (case find (\<lambda>room. take 5 room = ''game-'') socketRooms of
        None \<Rightarrow> Inr (srv, [])
      | Some gameRoomId \<Rightarrow>
         (case map_of (activeGames srv) gameRoomId of
            None \<Rightarrow> Inr (srv, [])
          | Some game \<Rightarrow>
             if currentTurn game \<noteq> socketId
             then Inr (srv, [(socketId, PvpGameUpdateError ''It's not your turn!'' ''error'')])
             else
               bindE (if action = ''hit'' then handleHit game socketId
                      else if action = ''stand'' then handleStand game socketId
                      else Inr game) (\<lambda>game1.
               bindE (viewAt game1 0) (\<lambda>(to0, view0).
               bindE (viewAt game1 1) (\<lambda>(to1, view1).
                 if gameOver game1
                 then bindE (viewAt game1 0) (\<lambda>(_, finalGame).
                        Inr (srv\<lparr>activeGames := setGame gameRoomId game1 (activeGames srv)\<rparr>,
                             [(to0, PvpGameUpdate view0), (to1, PvpGameUpdate view1),
                              (gameRoomId,
                               PvpGameOver (gameOverMessage game1) (gameOverType game1)
                                 (Some finalGame))]))
                 else Inr (srv\<lparr>activeGames := setGame gameRoomId game1 (activeGames srv)\<rparr>,
                           [(to0, PvpGameUpdate view0), (to1, PvpGameUpdate view1)]))))))"

section \<open>Properties stated in the specification's words\<close>

text \<open>
  The unmasked view of the dealer that the specification asks for once the round is over: the
  dealer's whole hand and the score stored for it.
\<close>

definition unmaskedDealer :: "game \<Rightarrow> dealer_view" where
  "unmaskedDealer game =
     \<lparr>dv_hand = map Face (hand (dealer game)), dv_score = score (dealer game),
      dv_hideSecondCard = False\<rparr>"

text \<open>
  The outcome of one player against the dealer, in the order of precedence of the
  specification, and the clause of the outcome message that belongs to it.
\<close>

datatype outcome = Busted | Wins | Loses | Push

definition playerOutcome :: "player_state \<Rightarrow> participant \<Rightarrow> outcome" where
  "playerOutcome player dealerObj =
     (if isBusted player then Busted
      else if isBusted dealerObj \<or> score player > score dealerObj then Wins
      else if score player < score dealerObj then Loses
      else Push)"

fun outcomeText :: "outcome \<Rightarrow> string" where
  "outcomeText Busted = '' busted. ''"
| "outcomeText Wins = '' wins! ''"
| "outcomeText Loses = '' loses. ''"
| "outcomeText Push = '' pushes. ''"

text \<open>
  All the cards a session holds: the hands of the dealer and of the two entries of \<open>players\<close>,
  and the deck.
\<close>

definition handAt :: "game \<Rightarrow> nat \<Rightarrow> card list" where
  "handAt game k = (case playerAt game k of None \<Rightarrow> [] | Some p \<Rightarrow> hand p)"

definition sessionCards :: "game \<Rightarrow> card list" where
  "sessionCards game = hand (dealer game) @ handAt game 0 @ handAt game 1 @ deck game"

text \<open>
  A player has finished when standing or busted. The turn order is walked circularly from
  the entry after the current one; the walk stops at the dealer's entry or at a player who
  has not finished. \<open>nextStop\<close> is the index where it stops.
\<close>

definition finished :: "game \<Rightarrow> string \<Rightarrow> bool" where
  "finished game p = (case seats game p of None \<Rightarrow> False | Some s \<Rightarrow> isStanding s \<or> isBusted s)"

definition stopsAt :: "game \<Rightarrow> nat \<Rightarrow> bool" where
  "stopsAt game k = (turnOrder game ! k = ''dealer'' \<or> \<not> finished game (turnOrder game ! k))"

definition nextStop :: "game \<Rightarrow> nat \<Rightarrow> nat option" where
  "nextStop game k =
     find (stopsAt game)
       (map (\<lambda>d. (k + d) mod length (turnOrder game)) [1 ..< length (turnOrder game) + 1])"

text \<open>
  The life of a session: \<open>evolves game0 game\<close> when \<open>game\<close> is \<open>game0\<close> after any number of
  hits and stands, by any identities, that returned. A session state is reachable when it
  evolves from the state dealt for two identities, neither of them the dealer's entry of the
  turn order.
\<close>

inductive evolves :: "game \<Rightarrow> game \<Rightarrow> bool" where
  start: "evolves game0 game0"
| hit: "evolves game0 game \<Longrightarrow> handleHit game playerId = Inr game1 \<Longrightarrow> evolves game0 game1"
| stand: "evolves game0 game \<Longrightarrow> handleStand game playerId = Inr game1 \<Longrightarrow> evolves game0 game1"

definition reachable :: "game \<Rightarrow> bool" where
  "reachable game =
     (\<exists>rnd player1Id player2Id game0.
        player1Id \<noteq> ''dealer'' \<and> player2Id \<noteq> ''dealer'' \<and>
        initializeGame rnd player1Id player2Id = Inr game0 \<and> evolves game0 game)"

text \<open>The longest run of characters other than the space in a text.\<close>

fun longestWord :: "string \<Rightarrow> nat \<Rightarrow> nat" where
  "longestWord [] run = run"
| "longestWord (c # cs) run =
     (if c = CHR '' '' then max run (longestWord cs 0) else longestWord cs (Suc run))"

section \<open>Well-formed sessions\<close>

text \<open>
  A session of two players: \<open>players\<close> holds two different identities, and these are exactly
  the identities with a player object.
\<close>

definition twoPlayers :: "game \<Rightarrow> bool" where
  "twoPlayers game =
     (length (players game) = 2 \<and> distinct (players game) \<and>
      dom (seats game) = set (players game))"

text \<open>
  No player object has an \<open>id\<close>, and the outcome message of a resolved round is made of the
  fixed texts alone.
\<close>

definition anonymous :: "game \<Rightarrow> bool" where
  "anonymous game = (\<forall>p s. seats game p = Some s \<longrightarrow> id' s = None)"

definition verdictMessage :: "string \<Rightarrow> bool" where
  "verdictMessage m =
     (\<exists>o1 o2. m = ''Round over! '' @ ''undefined'' @ outcomeText o1 @
                    ''undefined'' @ outcomeText o2)"

text \<open>
  The turn order of a session of two players and where the turn can be in it: with the first
  player while neither has finished, with the second once the first has, and with the dealer
  once both have.
\<close>

definition turnsInOrder :: "game \<Rightarrow> bool" where
  "turnsInOrder game =
     (\<exists>p1 p2. p1 \<noteq> ''dealer'' \<and> p2 \<noteq> ''dealer'' \<and>
        players game = [p1, p2] \<and> turnOrder game = [p1, p2, ''dealer''] \<and>
        dom (seats game) = {p1, p2} \<and>
        currentTurn game = turnOrder game ! turnIndex game \<and>
        ((turnIndex game = 0 \<and> \<not> finished game p1 \<and> \<not> finished game p2) \<or>
         (turnIndex game = 1 \<and> finished game p1 \<and> \<not> finished game p2) \<or>
         (turnIndex game = 2 \<and> finished game p1 \<and> finished game p2)))"

text \<open>
  What play leaves of the dealer: the two cards of the deal are never taken back, and once
  the round is resolved the dealer's loop has run, which ends on a stored total of 17 or more.
\<close>

definition dealerPlayed :: "game \<Rightarrow> bool" where
  "dealerPlayed game =
     (2 \<le> length (hand (dealer game)) \<and> (gameOver game \<longrightarrow> 17 \<le> score (dealer game)))"

section \<open>A sample match\<close>

text \<open>
  The random source that draws \<open>j = i\<close> in every iteration leaves the deck in the order
  of \<open>createDeck\<close>. \<open>sampleDeal\<close> is the session dealt from it for two socket ids, \<open>socketA\<close> and
  \<open>socketB\<close>, and \<open>sampleSelfDeal\<close> the one dealt when \<open>socketA\<close> is paired with itself.
\<close>

definition socketA :: string where
  "socketA = ''Zk3vQx81TfLmA0pRAAAB''"

definition socketB :: string where
  "socketB = ''Hq7_wN2cYd-5sUeJAAAD''"


definition sameIndex :: "nat \<Rightarrow> nat" where
  "sameIndex i = i"

definition spade :: "rank \<Rightarrow> card" where
  "spade r = \<lparr>rank = r, suit = Spades\<rparr>"

definition sampleDeal :: game where
  "sampleDeal =
     \<lparr>deck = take 46 createDeck,
      players = [socketA, socketB],
      seats = [socketA \<mapsto> newPlayer [spade Ace, spade Jack],
               socketB \<mapsto> newPlayer [spade King, spade Ten]],
      dealer = \<lparr>hand = [spade Queen, spade Nine], score = 19, isBusted = False\<rparr>,
      currentTurn = socketA,
      turnOrder = [socketA, socketB, ''dealer''],
      turnIndex = 0,
      message = ''Game started! Player 1's turn.'',
      gameOver = False,
      gameOverMessage = [],
      gameOverType = []\<rparr>"

definition sampleSelfDeal :: game where
  "sampleSelfDeal =
     \<lparr>deck = take 46 createDeck,
      players = [socketA, socketA],
      seats = [socketA \<mapsto> newPlayer [spade King, spade Ten]],
      dealer = \<lparr>hand = [spade Queen, spade Nine], score = 19, isBusted = False\<rparr>,
      currentTurn = socketA,
      turnOrder = [socketA, socketA, ''dealer''],
      turnIndex = 0,
      message = ''Game started! Player 1's turn.'',
      gameOver = False,
      gameOverMessage = [],
      gameOverType = []\<rparr>"

text \<open>\<open>sampleTurnB\<close> is the sample match after \<open>socketA\<close> has stood.\<close>

definition sampleTurnB :: game where
  "sampleTurnB =
     sampleDeal\<lparr>seats := (seats sampleDeal)(socketA \<mapsto>
                   (newPlayer [spade Ace, spade Jack])\<lparr>isStanding := True\<rparr>),
                message := ''It's '' @ socketB @ '''s turn.'',
                turnIndex := 1,
                currentTurn := socketB\<rparr>"

text \<open>
  \<open>sampleShowdown\<close> is a session at the moment the dealer has played: \<open>socketA\<close> stands on 20,
  \<open>socketB\<close> has gone bust with 25, and the dealer holds 18.
\<close>

definition sampleShowdown :: game where
  "sampleShowdown =
     \<lparr>deck = take 44 createDeck,
      players = [socketA, socketB],
      seats = [socketA \<mapsto> \<lparr>hand = [spade King, spade Queen], score = 20, isBusted = False,
                          isStanding = True, chips = 1000, id' = None\<rparr>,
               socketB \<mapsto> \<lparr>hand = [spade Ten, spade Nine, spade Six], score = 25,
                          isBusted = True, isStanding = False, chips = 1000, id' = None\<rparr>],
      dealer = \<lparr>hand = [spade Jack, spade Eight], score = 18, isBusted = False\<rparr>,
      currentTurn = ''dealer'',
      turnOrder = [socketA, socketB, ''dealer''],
      turnIndex = 2,
      message = ''Dealer's turn... Dealer stands.'',
      gameOver = False,
      gameOverMessage = [],
      gameOverType = []\<rparr>"

text \<open>\<open>sampleOver\<close> is the sample match after \<open>socketB\<close> has stood as well.\<close>

definition sampleOver :: game where
  "sampleOver =
     sampleTurnB\<lparr>seats := (seats sampleTurnB)(socketB \<mapsto>
                    (newPlayer [spade King, spade Ten])\<lparr>isStanding := True\<rparr>),
                 message := ''Dealer's turn... Dealer stands.'',
                 turnIndex := 2,
                 currentTurn := ''dealer'',
                 gameOver := True,
                 gameOverMessage := ''Round over! undefined wins! undefined wins! '',
                 gameOverType := ''win''\<rparr>"

text \<open>
  \<open>sampleLobby\<close> is a server where a third socket waits in the queue while the sample match
  is being played.
\<close>

definition socketC :: string where
  "socketC = ''m0Ty4ZbK9rXw_eG6AAAF''"




section \<open>Hand totals: properties\<close>

lemma getCardValue_plain:
  "getCardValue c t = plainValue (rank c) + (if rank c = Ace \<and> t + 11 \<le> 21 then 10 else 0)"
  by (cases "rank c") simp_all

lemma hardTotal_simps [simp]:
  "hardTotal [] = 0" "hardTotal (c # cs) = plainValue (rank c) + hardTotal cs"
  by (simp_all add: hardTotal_def)

lemma aceCount_simps [simp]:
  "aceCount [] = 0" "aceCount (c # cs) = (if rank c = Ace then Suc (aceCount cs) else aceCount cs)"
  by (simp_all add: aceCount_def)

lemma plainValue_pos: "1 \<le> plainValue r"
  by (cases r) simp_all

lemma hardTotal_nonneg: "0 \<le> hardTotal cs"
proof (induction cs)
  case Nil show ?case by simp
next
  case (Cons c cs)
  with plainValue_pos [of "rank c"] show ?case by simp
qed

lemma foldHand_numAces: "snd (foldHand cs t n) = n + aceCount cs"
  by (induction cs arbitrary: t n) simp_all

lemma foldHand_high: "11 \<le> t \<Longrightarrow> fst (foldHand cs t n) = t + hardTotal cs"
proof (induction cs arbitrary: t n)
  case Nil show ?case by simp
next
  case (Cons c cs)
  have v: "getCardValue c t = plainValue (rank c)"
    using Cons.prems by (simp add: getCardValue_plain del: getCardValue.simps)
  have "11 \<le> t + plainValue (rank c)"
    using Cons.prems plainValue_pos [of "rank c"] by linarith
  then show ?case using Cons.IH v by (simp del: getCardValue.simps)
qed

lemma foldHand_total:
  "0 \<le> t \<Longrightarrow> fst (foldHand cs t n) = t + hardTotal cs \<or>
   (fst (foldHand cs t n) = t + hardTotal cs + 10 \<and> 1 \<le> aceCount cs)"
proof (induction cs arbitrary: t n)
  case Nil show ?case by simp
next
  case (Cons c cs)
  show ?case
  proof (cases "rank c = Ace \<and> t + 11 \<le> 21")
    case True
    have "fst (foldHand cs (t + 11) (n + 1)) = t + 11 + hardTotal cs"
      by (rule foldHand_high) (use Cons.prems in simp)
    with True show ?thesis by simp
  next
    case False
    then have v: "getCardValue c t = plainValue (rank c)"
      by (simp add: getCardValue_plain del: getCardValue.simps)
    have "0 \<le> t + plainValue (rank c)"
      using Cons.prems plainValue_pos [of "rank c"] by linarith
    from Cons.IH [OF this, of "if rank c = Ace then n + 1 else n"] show ?thesis
      using v by (auto simp del: getCardValue.simps)
  qed
qed

lemma foldHand_soft:
  "0 \<le> t \<Longrightarrow> t + hardTotal cs \<le> 11 \<Longrightarrow> 1 \<le> aceCount cs \<Longrightarrow>
   fst (foldHand cs t n) = t + hardTotal cs + 10"
proof (induction cs arbitrary: t n)
  case Nil then show ?case by simp
next
  case (Cons c cs)
  show ?case
  proof (cases "rank c = Ace")
    case True
    have "0 \<le> hardTotal cs" by (rule hardTotal_nonneg)
    with Cons.prems True have small: "t + 11 \<le> 21" by simp
    have "fst (foldHand cs (t + 11) (n + 1)) = t + 11 + hardTotal cs"
      by (rule foldHand_high) (use Cons.prems in simp)
    with True small show ?thesis by simp
  next
    case False
    then have v: "getCardValue c t = plainValue (rank c)"
      by (simp add: getCardValue_plain del: getCardValue.simps)
    have "0 \<le> t + plainValue (rank c)"
      using Cons.prems plainValue_pos [of "rank c"] by linarith
    moreover have "t + plainValue (rank c) + hardTotal cs \<le> 11"
      using Cons.prems by simp
    moreover have "1 \<le> aceCount cs" using Cons.prems False by simp
    ultimately have "fst (foldHand cs (t + plainValue (rank c)) n)
        = t + plainValue (rank c) + hardTotal cs + 10"
      by (rule Cons.IH)
    then show ?thesis using v False by (simp del: getCardValue.simps)
  qed
qed

lemma adjustAces_keep: "t \<le> 21 \<Longrightarrow> adjustAces t n = t"
  by (simp add: adjustAces.simps)

lemma adjustAces_none: "adjustAces t 0 = t"
  by (simp add: adjustAces.simps)

lemma adjustAces_once: "21 < t \<Longrightarrow> t - 10 \<le> 21 \<Longrightarrow> 0 < n \<Longrightarrow> adjustAces t n = t - 10"
  by (subst adjustAces.simps) (simp add: adjustAces_keep)

lemma adjustAces_le: "t - 10 * int n \<le> 21 \<Longrightarrow> adjustAces t n \<le> 21"
proof (induction t n rule: adjustAces.induct)
  case (1 t n)
  show ?case
  proof (cases "t > 21 \<and> n > 0")
    case True
    then have "t - 10 - 10 * int (n - 1) \<le> 21" using "1.prems" by (cases n) simp_all
    with "1.IH" True have "adjustAces (t - 10) (n - 1) \<le> 21" by blast
    with True show ?thesis by (subst adjustAces.simps) simp
  next
    case False
    with "1.prems" show ?thesis by (subst adjustAces.simps) auto
  qed
qed

lemma candidates_ge_hard: "t \<in> set (aceAssignmentTotals cs) \<Longrightarrow> hardTotal cs \<le> t"
  by (induction cs arbitrary: t) (fastforce split: if_splits)+

lemma hard_is_candidate: "hardTotal cs \<in> set (aceAssignmentTotals cs)"
  by (induction cs) auto

lemma calculateHandTotal_split:
  "calculateHandTotal cs = adjustAces (fst (foldHand cs 0 0)) (aceCount cs)"
  using foldHand_numAces [of cs 0 0]
  by (cases "foldHand cs 0 0") (simp add: calculateHandTotal_def)

lemma calculateHandTotal_fits:
  assumes "hardTotal cs \<le> 21"
  shows "calculateHandTotal cs =
    (if 1 \<le> aceCount cs \<and> hardTotal cs \<le> 11 then hardTotal cs + 10 else hardTotal cs)"
proof (cases "1 \<le> aceCount cs \<and> hardTotal cs \<le> 11")
  case True
  then have "fst (foldHand cs 0 0) = hardTotal cs + 10"
    using foldHand_soft [of 0 cs 0] by simp
  with True show ?thesis
    by (simp add: calculateHandTotal_split adjustAces_keep)
next
  case False
  from foldHand_total [of 0 cs 0]
  consider "fst (foldHand cs 0 0) = hardTotal cs"
    | "fst (foldHand cs 0 0) = hardTotal cs + 10" "1 \<le> aceCount cs" by auto
  then show ?thesis
  proof cases
    case 1
    with assms False show ?thesis
      by (simp add: calculateHandTotal_split adjustAces_keep)
  next
    case 2
    with False have "11 < hardTotal cs" by simp
    with 2 assms have "adjustAces (fst (foldHand cs 0 0)) (aceCount cs) = hardTotal cs"
      by (simp add: adjustAces_once)
    with False show ?thesis by (simp add: calculateHandTotal_split)
  qed
qed

lemma aceCount_le_hard: "int (aceCount cs) \<le> hardTotal cs"
proof (induction cs)
  case Nil show ?case by simp
next
  case (Cons c cs)
  with plainValue_pos [of "rank c"] show ?case by (cases "rank c = Ace") simp_all
qed

lemma candidates_form:
  "t \<in> set (aceAssignmentTotals cs) \<Longrightarrow> \<exists>j \<le> aceCount cs. t = hardTotal cs + 10 * int j"
proof (induction cs arbitrary: t)
  case Nil then show ?case by simp
next
  case (Cons c cs)
  show ?case
  proof (cases "rank c = Ace")
    case True
    with Cons.prems consider u where "u \<in> set (aceAssignmentTotals cs)" "t = 1 + u"
      | u where "u \<in> set (aceAssignmentTotals cs)" "t = 11 + u" by auto
    then show ?thesis
    proof cases
      case 1
      from Cons.IH [OF 1(1)] obtain j where "j \<le> aceCount cs" "u = hardTotal cs + 10 * int j"
        by blast
      with 1 True show ?thesis by (intro exI [of _ j]) simp
    next
      case 2
      from Cons.IH [OF 2(1)] obtain j where "j \<le> aceCount cs" "u = hardTotal cs + 10 * int j"
        by blast
      with 2 True show ?thesis by (intro exI [of _ "Suc j"]) simp
    qed
  next
    case False
    with Cons.prems obtain u where u: "u \<in> set (aceAssignmentTotals cs)"
      "t = plainValue (rank c) + u" by auto
    from Cons.IH [OF u(1)] obtain j where "j \<le> aceCount cs" "u = hardTotal cs + 10 * int j"
      by blast
    with u False show ?thesis by (intro exI [of _ j]) simp
  qed
qed

lemma soft_is_candidate:
  "1 \<le> aceCount cs \<Longrightarrow> hardTotal cs + 10 \<in> set (aceAssignmentTotals cs)"
proof (induction cs)
  case Nil then show ?case by simp
next
  case (Cons c cs)
  show ?case
  proof (cases "rank c = Ace")
    case True
    have "hardTotal cs \<in> set (aceAssignmentTotals cs)" by (rule hard_is_candidate)
    then have "11 + hardTotal cs \<in> (\<lambda>t. 11 + t) ` set (aceAssignmentTotals cs)" by blast
    with True show ?thesis by simp
  next
    case False
    with Cons have "hardTotal cs + 10 \<in> set (aceAssignmentTotals cs)" by simp
    then have "plainValue (rank c) + (hardTotal cs + 10)
      \<in> (\<lambda>t. plainValue (rank c) + t) ` set (aceAssignmentTotals cs)" by blast
    with False show ?thesis by (simp add: add.assoc)
  qed
qed

lemma standardTotal_closed:
  "standardTotal cs =
    (if 1 \<le> aceCount cs \<and> hardTotal cs \<le> 11 then hardTotal cs + 10 else hardTotal cs)"
proof -
  let ?C = "set (aceAssignmentTotals cs)"
  let ?F = "set (filter (\<lambda>t. t \<le> 21) (aceAssignmentTotals cs))"
  have fin: "finite ?C" "finite ?F" by simp_all
  show ?thesis
  proof (cases "hardTotal cs \<le> 21")
    case False
    then have "filter (\<lambda>t. t \<le> 21) (aceAssignmentTotals cs) = []"
      using candidates_ge_hard [of _ cs] by (fastforce simp: filter_empty_conv)
    moreover have "Min ?C = hardTotal cs"
      using fin(1) candidates_ge_hard hard_is_candidate by (intro Min_eqI) auto
    ultimately show ?thesis using False by (simp add: standardTotal_def)
  next
    case True
    then have ne: "filter (\<lambda>t. t \<le> 21) (aceAssignmentTotals cs) \<noteq> []"
      using hard_is_candidate [of cs] by (auto simp: filter_empty_conv)
    show ?thesis
    proof (cases "1 \<le> aceCount cs \<and> hardTotal cs \<le> 11")
      case soft: True
      have "Max ?F = hardTotal cs + 10"
      proof (rule Max_eqI [OF fin(2)])
        fix y assume "y \<in> ?F"
        then have y: "y \<in> ?C" "y \<le> 21" by simp_all
        from candidates_form [OF y(1)] obtain j where
          j: "j \<le> aceCount cs" "y = hardTotal cs + 10 * int j" by blast
        have "j \<le> 1"
        proof (rule ccontr)
          assume "\<not> j \<le> 1"
          then have "2 \<le> j" by simp
          with j(1) have "2 \<le> hardTotal cs" using aceCount_le_hard [of cs] by linarith
          with \<open>2 \<le> j\<close> j(2) y(2) show False by linarith
        qed
        with j(2) show "y \<le> hardTotal cs + 10" by (cases j) simp_all
      next
        show "hardTotal cs + 10 \<in> ?F" using soft soft_is_candidate [of cs] by simp
      qed
      with ne soft show ?thesis by (simp add: standardTotal_def)
    next
      case hard: False
      have "Max ?F = hardTotal cs"
      proof (rule Max_eqI [OF fin(2)])
        fix y assume "y \<in> ?F"
        then have y: "y \<in> ?C" "y \<le> 21" by simp_all
        from candidates_form [OF y(1)] obtain j where
          j: "j \<le> aceCount cs" "y = hardTotal cs + 10 * int j" by blast
        have "j = 0"
        proof (rule ccontr)
          assume "j \<noteq> 0"
          then have "1 \<le> j" by simp
          with j(1) have "1 \<le> aceCount cs" by simp
          with hard have "11 < hardTotal cs" by simp
          with \<open>1 \<le> j\<close> j(2) y(2) show False by linarith
        qed
        with j(2) show "y \<le> hardTotal cs" by simp
      next
        show "hardTotal cs \<in> ?F" using True hard_is_candidate [of cs] by simp
      qed
      with ne hard show ?thesis by (simp add: standardTotal_def)
    qed
  qed
qed

lemma calculateHandTotal_standard:
  "hardTotal cs \<le> 21 \<Longrightarrow> calculateHandTotal cs = standardTotal cs"
  by (simp add: calculateHandTotal_fits standardTotal_closed)

text \<open>
  Claim C2. Whenever some way of counting each Ace of a hand as 1 or as 11 gives a total of at
  most 21, \<open>calculateHandTotal\<close> returns at most 21: such a hand is never reported as bust.
\<close>

theorem no_false_bust:
  assumes "\<exists>t \<in> set (aceAssignmentTotals cs). t \<le> 21"
  shows "calculateHandTotal cs \<le> 21"
proof -
  from assms obtain t where "t \<in> set (aceAssignmentTotals cs)" "t \<le> 21" by blast
  then have "hardTotal cs \<le> 21" using candidates_ge_hard by fastforce
  then show ?thesis by (simp add: calculateHandTotal_fits)
qed

theorem no_false_bust_witness:
  "(\<exists>t \<in> set (aceAssignmentTotals
        [\<lparr>rank = Ace, suit = Hearts\<rparr>, \<lparr>rank = Ace, suit = Spades\<rparr>,
         \<lparr>rank = Nine, suit = Clubs\<rparr>]). t \<le> 21) \<and>
   calculateHandTotal
        [\<lparr>rank = Ace, suit = Hearts\<rparr>, \<lparr>rank = Ace, suit = Spades\<rparr>,
         \<lparr>rank = Nine, suit = Clubs\<rparr>] \<le> 21"
proof -
  have h: "\<exists>t \<in> set (aceAssignmentTotals
        [\<lparr>rank = Ace, suit = Hearts\<rparr>, \<lparr>rank = Ace, suit = Spades\<rparr>,
         \<lparr>rank = Nine, suit = Clubs\<rparr>]). t \<le> 21"
    by simp
  from h no_false_bust [OF h] show ?thesis by blast
qed

text \<open>
  Claim C1. The claim is that \<open>calculateHandTotal\<close> returns the standard total of every hand,
  the loop after the fold taking 10 off only for an Ace that the fold counted as 11, so that a
  hand whose smallest total is above 21 is reported with that total. The loop counts every
  Ace. For the hand 10, 5, Ace, 10 the fold counts the Ace as 1 and reaches 26, and the loop
  takes 10 off for that Ace: the function returns 16, where the standard total is 26. (The
  claim's own example, Ace, Ace, 9, does give 21.)
\<close>

theorem calculateHandTotal_demotes_hard_ace:
  "calculateHandTotal
     [\<lparr>rank = Ten, suit = Hearts\<rparr>, \<lparr>rank = Five, suit = Hearts\<rparr>,
      \<lparr>rank = Ace, suit = Hearts\<rparr>, \<lparr>rank = Ten, suit = Spades\<rparr>] = 16 \<and>
   standardTotal
     [\<lparr>rank = Ten, suit = Hearts\<rparr>, \<lparr>rank = Five, suit = Hearts\<rparr>,
      \<lparr>rank = Ace, suit = Hearts\<rparr>, \<lparr>rank = Ten, suit = Spades\<rparr>] = 26 \<and>
   calculateHandTotal
     [\<lparr>rank = Ace, suit = Hearts\<rparr>, \<lparr>rank = Ace, suit = Spades\<rparr>,
      \<lparr>rank = Nine, suit = Hearts\<rparr>] = 21"
  by (simp add: calculateHandTotal_def standardTotal_def adjustAces.simps)

section \<open>The deck and the initial deal: properties\<close>

lemma length_createDeck: "length createDeck = 52"
  by (simp add: createDeck_def suits_def ranks_def)

lemma distinct_createDeck: "distinct createDeck"
  by (simp add: createDeck_def suits_def ranks_def)

lemma all_cards_in_createDeck: "c \<in> set createDeck"
proof -
  obtain r s where c: "c = \<lparr>rank = r, suit = s\<rparr>" by (cases c) simp
  have "r \<in> set ranks" by (cases r) (simp_all add: ranks_def)
  moreover have "s \<in> set suits" by (cases s) (simp_all add: suits_def)
  ultimately show ?thesis unfolding c createDeck_def by auto
qed

lemma length_shuffleLoop: "length (shuffleLoop rnd k ds) = length ds"
  by (induction k arbitrary: ds) (simp_all add: Let_def)

lemma mset_shuffleLoop: "k < length ds \<Longrightarrow> mset (shuffleLoop rnd k ds) = mset ds"
proof (induction k arbitrary: ds)
  case 0 show ?case by simp
next
  case (Suc k)
  let ?j = "rnd (Suc k) mod (Suc k + 1)"
  have "?j < Suc k + 1" by (rule mod_less_divisor) simp
  with Suc.prems have j: "?j < length ds" by linarith
  have "mset (ds[Suc k := ds ! ?j, ?j := ds ! Suc k]) = mset ds"
    using Suc.prems j by (simp add: mset_swap)
  moreover have "k < length (ds[Suc k := ds ! ?j, ?j := ds ! Suc k])"
    using Suc.prems by simp
  ultimately show ?case using Suc.IH by (simp add: Let_def)
qed

lemma mset_shuffleDeck: "mset (shuffleDeck rnd ds) = mset ds"
proof (cases "ds = []")
  case True then show ?thesis by (simp add: shuffleDeck_def)
next
  case False
  then have "length ds - 1 < length ds" by (cases ds) simp_all
  then show ?thesis by (simp add: shuffleDeck_def mset_shuffleLoop)
qed

lemma length_shuffleDeck: "length (shuffleDeck rnd ds) = length ds"
  by (simp add: shuffleDeck_def length_shuffleLoop)

lemma popCard_snoc: "popCard (xs @ [x]) = Inr (x, xs)"
  by (simp add: popCard_def)

lemma snoc_of_nonempty: "Suc n \<le> length (d :: 'a list) \<Longrightarrow> \<exists>xs x. d = xs @ [x] \<and> n \<le> length xs"
  by (cases d rule: rev_cases) simp_all

lemma last_six:
  assumes "6 \<le> length (d :: 'a list)"
  shows "\<exists>rest c6 c5 c4 c3 c2 c1. d = rest @ [c6, c5, c4, c3, c2, c1]"
proof -
  from assms have "Suc 5 \<le> length d" by simp
  from snoc_of_nonempty [OF this] obtain d1 c1 where 1: "d = d1 @ [c1]" "Suc 4 \<le> length d1"
    by (auto simp: eval_nat_numeral)
  from snoc_of_nonempty [OF 1(2)] obtain d2 c2 where 2: "d1 = d2 @ [c2]" "Suc 3 \<le> length d2"
    by (auto simp: eval_nat_numeral)
  from snoc_of_nonempty [OF 2(2)] obtain d3 c3 where 3: "d2 = d3 @ [c3]" "Suc 2 \<le> length d3"
    by (auto simp: eval_nat_numeral)
  from snoc_of_nonempty [OF 3(2)] obtain d4 c4 where 4: "d3 = d4 @ [c4]" "Suc 1 \<le> length d4"
    by (auto simp: eval_nat_numeral)
  from snoc_of_nonempty [OF 4(2)] obtain d5 c5 where 5: "d4 = d5 @ [c5]" "Suc 0 \<le> length d5"
    by (auto simp: eval_nat_numeral)
  from snoc_of_nonempty [OF 5(2)] obtain d6 c6 where 6: "d5 = d6 @ [c6]"
    by auto
  have "d = d6 @ [c6, c5, c4, c3, c2, c1]" by (simp add: 1 2 3 4 5 6)
  then show ?thesis by blast
qed

lemma shuffleLoop_same: "shuffleLoop sameIndex k ds = ds"
  by (induction k arbitrary: ds) (simp_all add: Let_def sameIndex_def)

lemma shuffleDeck_same: "shuffleDeck sameIndex ds = ds"
  by (simp add: shuffleDeck_def shuffleLoop_same)

lemma initializeGame_deal:
  assumes "shuffleDeck rnd createDeck = rest @ [c6, c5, c4, c3, c2, c1]"
  shows "initializeGame rnd p1 p2 =
    Inr \<lparr>deck = rest, players = [p1, p2],
         seats = [p1 \<mapsto> newPlayer [c1, c4], p2 \<mapsto> newPlayer [c2, c5]],
         dealer = \<lparr>hand = [c3, c6], score = calculateHandTotal [c3, c6], isBusted = False\<rparr>,
         currentTurn = p1, turnOrder = [p1, p2, ''dealer''], turnIndex = 0,
         message = ''Game started! Player 1's turn.'',
         gameOver = False, gameOverMessage = [], gameOverType = []\<rparr>"
proof -
  have pops: "popCard (rest @ [c6, c5, c4, c3, c2, c1]) = Inr (c1, rest @ [c6, c5, c4, c3, c2])"
    "popCard (rest @ [c6, c5, c4, c3, c2]) = Inr (c2, rest @ [c6, c5, c4, c3])"
    "popCard (rest @ [c6, c5, c4, c3]) = Inr (c3, rest @ [c6, c5, c4])"
    "popCard (rest @ [c6, c5, c4]) = Inr (c4, rest @ [c6, c5])"
    "popCard (rest @ [c6, c5]) = Inr (c5, rest @ [c6])"
    "popCard (rest @ [c6]) = Inr (c6, rest)"
    by (simp_all add: popCard_def butlast_append)
  show ?thesis
    unfolding initializeGame_def assms by (simp add: pops bindE_def Let_def)
qed

lemma shuffled_last_six:
  "\<exists>rest c6 c5 c4 c3 c2 c1. shuffleDeck rnd createDeck = rest @ [c6, c5, c4, c3, c2, c1]"
  by (rule last_six) (simp add: length_shuffleDeck length_createDeck)

lemma initializeGame_returns: "\<exists>game. initializeGame rnd p1 p2 = Inr game"
  using shuffled_last_six [of rnd] initializeGame_deal [of rnd _ _ _ _ _ _ _ p1 p2] by metis

lemma handAt_two:
  "players g = [p1, p2] \<Longrightarrow> seats g p1 = Some s1 \<Longrightarrow> handAt g 0 = hand s1"
  "players g = [p1, p2] \<Longrightarrow> seats g p2 = Some s2 \<Longrightarrow> handAt g 1 = hand s2"
  by (simp_all add: handAt_def playerAt_def)

lemma initializeGame_cards:
  assumes "p1 \<noteq> p2" and "initializeGame rnd p1 p2 = Inr g"
  shows "mset (sessionCards g) = mset createDeck"
proof -
  from shuffled_last_six [of rnd] obtain rest c6 c5 c4 c3 c2 c1 where
    sh: "shuffleDeck rnd createDeck = rest @ [c6, c5, c4, c3, c2, c1]" by blast
  from initializeGame_deal [OF sh, of p1 p2] assms(2)
  have g: "g = \<lparr>deck = rest, players = [p1, p2],
         seats = [p1 \<mapsto> newPlayer [c1, c4], p2 \<mapsto> newPlayer [c2, c5]],
         dealer = \<lparr>hand = [c3, c6], score = calculateHandTotal [c3, c6], isBusted = False\<rparr>,
         currentTurn = p1, turnOrder = [p1, p2, ''dealer''], turnIndex = 0,
         message = ''Game started! Player 1's turn.'',
         gameOver = False, gameOverMessage = [], gameOverType = []\<rparr>" by simp
  have "mset (sessionCards g) = mset (rest @ [c6, c5, c4, c3, c2, c1])"
    using assms(1) by (simp add: g sessionCards_def handAt_def playerAt_def newPlayer_def)
  also have "\<dots> = mset createDeck"
    using mset_shuffleDeck [of rnd createDeck] by (simp add: sh)
  finally show ?thesis .
qed

lemma full_deck:
  assumes "mset cs = mset createDeck"
  shows "distinct cs" and "set cs = UNIV" and "length cs = 52"
proof -
  show "distinct cs" using assms distinct_createDeck by (metis mset_eq_imp_distinct_iff)
  have "set cs = set createDeck" using assms by (rule mset_eq_setD)
  then show "set cs = UNIV" using all_cards_in_createDeck by auto
  show "length cs = 52" using assms length_createDeck by (metis mset_eq_length)
qed

section \<open>The turn engine: what an operation changes\<close>

lemma dealerLoop_frame:
  "dealerLoop g = Inr g' \<Longrightarrow>
     seats g' = seats g \<and> players g' = players g \<and> turnOrder g' = turnOrder g \<and>
     turnIndex g' = turnIndex g \<and> currentTurn g' = currentTurn g \<and>
     gameOver g' = gameOver g \<and> isBusted (dealer g') = isBusted (dealer g) \<and>
     (\<exists>dealt. deck g = deck g' @ dealt \<and> hand (dealer g') = hand (dealer g) @ rev dealt)"
proof (induction g rule: dealerLoop.induct)
  case (1 g)
  show ?case
  proof (cases "score (dealer g) < 17")
    case False
    with "1.prems" have "g' = g" by (subst (asm) dealerLoop.simps) simp
    then show ?thesis by simp
  next
    case True
    show ?thesis
    proof (cases "deck g = []")
      case True
      with \<open>score (dealer g) < 17\<close> "1.prems" show ?thesis
        by (subst (asm) dealerLoop.simps) simp
    next
      case False
      let ?c = "last (deck g)"
      let ?g1 = "g\<lparr>deck := butlast (deck g),
                   dealer := (dealer g)\<lparr>hand := hand (dealer g) @ [?c],
                                         score := calculateHandTotal (hand (dealer g) @ [?c])\<rparr>,
                   message := message g @ '' Dealer hits and gets '' @
                        rankText (rank ?c) @ '' of '' @ suitText (suit ?c) @ ''.''\<rparr>"
      from "1.prems" True False have run: "dealerLoop ?g1 = Inr g'"
        by (subst (asm) dealerLoop.simps) (simp add: Let_def)
      from "1.IH" [OF True False refl refl run]
      obtain dealt where fr: "seats g' = seats ?g1" "players g' = players ?g1"
        "turnOrder g' = turnOrder ?g1" "turnIndex g' = turnIndex ?g1"
        "currentTurn g' = currentTurn ?g1" "gameOver g' = gameOver ?g1"
        "isBusted (dealer g') = isBusted (dealer ?g1)"
        "deck ?g1 = deck g' @ dealt" "hand (dealer g') = hand (dealer ?g1) @ rev dealt"
        by blast
      have "butlast (deck g) = deck g' @ dealt" using fr(8) by simp
      then have "butlast (deck g) @ [?c] = deck g' @ (dealt @ [?c])" by simp
      then have "deck g = deck g' @ (dealt @ [?c])" using False by simp
      moreover have "hand (dealer g') = hand (dealer g) @ rev (dealt @ [?c])"
        using fr(9) by simp
      ultimately show ?thesis using fr(1-7) by (intro conjI exI [of _ "dealt @ [?c]"]) simp_all
    qed
  qed
qed

lemma bindE_Inr: "bindE r f = Inr y \<longleftrightarrow> (\<exists>x. r = Inr x \<and> f x = Inr y)"
  by (cases r) (simp_all add: bindE_def)

lemma handleDealerTurn_frame:
  assumes "handleDealerTurn g = Inr g'"
  shows "seats g' = seats g \<and> players g' = players g \<and> turnOrder g' = turnOrder g \<and>
     turnIndex g' = turnIndex g \<and> currentTurn g' = currentTurn g \<and>
     gameOver g' = gameOver g \<and>
     (\<exists>dealt. deck g = deck g' @ dealt \<and> hand (dealer g') = hand (dealer g) @ rev dealt)"
proof -
  let ?g0 = "g\<lparr>message := ''Dealer's turn...'',
                dealer := (dealer g)\<lparr>score := calculateHandTotal (hand (dealer g))\<rparr>\<rparr>"
  from assms obtain g1 where loop: "dealerLoop ?g0 = Inr g1"
    and fin: "g' = (if score (dealer g1) > 21
          then g1\<lparr>dealer := (dealer g1)\<lparr>isBusted := True\<rparr>,
                  message := message g1 @ '' Dealer busts!''\<rparr>
          else g1\<lparr>message := message g1 @ '' Dealer stands.''\<rparr>)"
    unfolding handleDealerTurn_def bindE_Inr by (auto split: if_splits)
  from dealerLoop_frame [OF loop]
  obtain dealt where fr: "seats g1 = seats ?g0" "players g1 = players ?g0"
        "turnOrder g1 = turnOrder ?g0" "turnIndex g1 = turnIndex ?g0"
        "currentTurn g1 = currentTurn ?g0" "gameOver g1 = gameOver ?g0"
        "deck ?g0 = deck g1 @ dealt" "hand (dealer g1) = hand (dealer ?g0) @ rev dealt"
    by blast
  have "deck g = deck g' @ dealt" using fr(7) by (simp add: fin)
  moreover have "hand (dealer g') = hand (dealer g) @ rev dealt" using fr(8) by (simp add: fin)
  ultimately show ?thesis using fr(1-6) by (simp add: fin)
qed

lemma determineGameOutcome_frame:
  assumes "determineGameOutcome g = Inr g'"
  shows "\<exists>msg type. g' = g\<lparr>gameOver := True, gameOverMessage := msg, gameOverType := type\<rparr>"
  using assms unfolding determineGameOutcome_def
  by (auto split: option.splits prod.splits)

lemma advanceTurn_frame:
  assumes "advanceTurn g = Inr g'"
  shows "seats g' = seats g \<and> players g' = players g \<and> turnOrder g' = turnOrder g \<and>
     (\<exists>dealt. deck g = deck g' @ dealt \<and> hand (dealer g') = hand (dealer g) @ rev dealt)"
proof -
  from assms obtain k where
    k: "skipTurns g ((turnIndex g + 1) mod length (turnOrder g)) = Some (Inr k)"
    unfolding advanceTurn_def by (auto split: option.splits sum.splits)
  let ?g1 = "g\<lparr>turnIndex := k, currentTurn := turnOrder g ! k\<rparr>"
  show ?thesis
  proof (cases "turnOrder g ! k = ''dealer''")
    case False
    with assms k have "g' = ?g1\<lparr>message := ''It's '' @ currentTurn ?g1 @ '''s turn.''\<rparr>"
      unfolding advanceTurn_def by (simp add: Let_def)
    then show ?thesis by simp
  next
    case True
    with assms k have "bindE (handleDealerTurn ?g1) determineGameOutcome = Inr g'"
      unfolding advanceTurn_def by (simp add: Let_def)
    then obtain g2 where d: "handleDealerTurn ?g1 = Inr g2" and o: "determineGameOutcome g2 = Inr g'"
      unfolding bindE_Inr by blast
    from determineGameOutcome_frame [OF o] obtain msg type where
      g': "g' = g2\<lparr>gameOver := True, gameOverMessage := msg, gameOverType := type\<rparr>" by blast
    from handleDealerTurn_frame [OF d] obtain dealt where
      fr: "seats g2 = seats ?g1" "players g2 = players ?g1" "turnOrder g2 = turnOrder ?g1"
        "deck ?g1 = deck g2 @ dealt" "hand (dealer g2) = hand (dealer ?g1) @ rev dealt"
      by blast
    have "deck g = deck g' @ dealt" using fr(4) by (simp add: g')
    moreover have "hand (dealer g') = hand (dealer g) @ rev dealt" using fr(5) by (simp add: g')
    ultimately show ?thesis using fr(1-3) by (simp add: g')
  qed
qed

lemma twoPlayersE:
  assumes "twoPlayers g"
  obtains p1 p2 s1 s2 where "players g = [p1, p2]" "p1 \<noteq> p2"
    "seats g p1 = Some s1" "seats g p2 = Some s2" "dom (seats g) = {p1, p2}"
proof -
  from assms have len: "length (players g) = 2" and dis: "distinct (players g)"
    and dom: "dom (seats g) = set (players g)" by (simp_all add: twoPlayers_def)
  from len obtain p1 p2 where ps: "players g = [p1, p2]"
    by (auto simp: length_Suc_conv eval_nat_numeral)
  with dis have ne: "p1 \<noteq> p2" by simp
  from dom ps have d: "dom (seats g) = {p1, p2}" by simp
  then obtain s1 s2 where "seats g p1 = Some s1" "seats g p2 = Some s2" by blast
  with ps ne d show ?thesis by (intro that [of p1 p2 s1 s2])
qed

lemma advanceTurn_cards:
  assumes "advanceTurn g = Inr g'"
  shows "mset (sessionCards g') = mset (sessionCards g)"
    and "twoPlayers g \<Longrightarrow> twoPlayers g'"
    and "\<exists>dealt. deck g = deck g' @ dealt"
proof -
  from advanceTurn_frame [OF assms] obtain dealt where
    fr: "seats g' = seats g" "players g' = players g"
      "deck g = deck g' @ dealt" "hand (dealer g') = hand (dealer g) @ rev dealt" by blast
  show "mset (sessionCards g') = mset (sessionCards g)"
    by (simp add: sessionCards_def handAt_def playerAt_def fr)
  show "twoPlayers g \<Longrightarrow> twoPlayers g'" by (simp add: twoPlayers_def fr)
  show "\<exists>dealt. deck g = deck g' @ dealt" using fr(3) by blast
qed

lemma draw_cards:
  assumes tp: "twoPlayers g" and seat: "seats g p = Some s" and ne: "deck g \<noteq> []"
    and h: "hand s' = hand s @ [last (deck g)]"
  shows "mset (sessionCards (g\<lparr>deck := butlast (deck g), seats := (seats g)(p \<mapsto> s'),
             message := m\<rparr>)) = mset (sessionCards g)"
    and "twoPlayers (g\<lparr>deck := butlast (deck g), seats := (seats g)(p \<mapsto> s'), message := m\<rparr>)"
proof -
  let ?g1 = "g\<lparr>deck := butlast (deck g), seats := (seats g)(p \<mapsto> s'), message := m\<rparr>"
  from tp obtain p1 p2 s1 s2 where w: "players g = [p1, p2]" "p1 \<noteq> p2"
    "seats g p1 = Some s1" "seats g p2 = Some s2" "dom (seats g) = {p1, p2}"
    by (rule twoPlayersE)
  from seat w(5) have p: "p = p1 \<or> p = p2" by blast
  have d: "mset (deck g) = mset (butlast (deck g)) + {#last (deck g)#}"
    using ne by (metis append_butlast_last_id mset.simps(1) mset.simps(2) mset_append union_mset_add_mset_right add.right_neutral)
  from p show "mset (sessionCards ?g1) = mset (sessionCards g)"
  proof
    assume "p = p1"
    with seat w h d show ?thesis
      by (simp add: sessionCards_def handAt_def playerAt_def)
  next
    assume "p = p2"
    with seat w h d show ?thesis
      by (simp add: sessionCards_def handAt_def playerAt_def)
  qed
  from p w show "twoPlayers ?g1" by (auto simp: twoPlayers_def)
qed

lemma seat_flag_cards:
  assumes tp: "twoPlayers g" and seat: "seats g p = Some s" and h: "hand s' = hand s"
  shows "mset (sessionCards (g\<lparr>seats := (seats g)(p \<mapsto> s'), message := m\<rparr>))
           = mset (sessionCards g)"
    and "twoPlayers (g\<lparr>seats := (seats g)(p \<mapsto> s'), message := m\<rparr>)"
proof -
  let ?g1 = "g\<lparr>seats := (seats g)(p \<mapsto> s'), message := m\<rparr>"
  from tp obtain p1 p2 s1 s2 where w: "players g = [p1, p2]" "p1 \<noteq> p2"
    "seats g p1 = Some s1" "seats g p2 = Some s2" "dom (seats g) = {p1, p2}"
    by (rule twoPlayersE)
  from seat w(5) have p: "p = p1 \<or> p = p2" by blast
  from p show "mset (sessionCards ?g1) = mset (sessionCards g)"
  proof
    assume "p = p1"
    with seat w h show ?thesis
      by (simp add: sessionCards_def handAt_def playerAt_def)
  next
    assume "p = p2"
    with seat w h show ?thesis
      by (simp add: sessionCards_def handAt_def playerAt_def)
  qed
  from p w show "twoPlayers ?g1" by (auto simp: twoPlayers_def)
qed

lemma handleHit_cases:
  assumes "handleHit g p = Inr g'"
  obtains (ignored) "g' = g"
  | (drew) s where "currentTurn g = p" "seats g p = Some s" "\<not> isStanding s" "\<not> isBusted s"
      "deck g \<noteq> []" "calculateHandTotal (hand s @ [last (deck g)]) \<le> 21"
      "g' = g\<lparr>deck := butlast (deck g),
              seats := (seats g)(p \<mapsto> s\<lparr>hand := hand s @ [last (deck g)],
                 score := calculateHandTotal (hand s @ [last (deck g)])\<rparr>),
              message := p @ '' hits and gets '' @ rankText (rank (last (deck g))) @ '' of '' @
                 suitText (suit (last (deck g))) @ ''.''\<rparr>"
  | (bust) s where "currentTurn g = p" "seats g p = Some s" "\<not> isStanding s" "\<not> isBusted s"
      "deck g \<noteq> []" "calculateHandTotal (hand s @ [last (deck g)]) > 21"
      "advanceTurn (g\<lparr>deck := butlast (deck g),
              seats := (seats g)(p \<mapsto> s\<lparr>hand := hand s @ [last (deck g)],
                 score := calculateHandTotal (hand s @ [last (deck g)]),
                 isBusted := True\<rparr>),
              message := p @ '' busted!''\<rparr>) = Inr g'"
proof (cases "currentTurn g = p")
  case False
  with assms have "g' = g" by (simp add: handleHit_def)
  then show ?thesis by (rule ignored)
next
  case turn: True
  with assms obtain s where s: "seats g p = Some s"
    by (cases "seats g p") (simp_all add: handleHit_def)
  show ?thesis
  proof (cases "isStanding s \<or> isBusted s")
    case True
    with assms turn s have "g' = g" by (simp add: handleHit_def)
    then show ?thesis by (rule ignored)
  next
    case active: False
    with assms turn s have ne: "deck g \<noteq> []"
      by (auto simp: handleHit_def split: if_splits)
    show ?thesis
    proof (cases "calculateHandTotal (hand s @ [last (deck g)]) > 21")
      case True
      with assms turn s active ne show ?thesis
        by (intro bust [of s]) (simp_all add: handleHit_def Let_def)
    next
      case False
      with assms turn s active ne show ?thesis
        by (intro drew [of s]) (auto simp: handleHit_def Let_def)
    qed
  qed
qed

lemma handleStand_cases:
  assumes "handleStand g p = Inr g'"
  obtains (ignored) "g' = g"
  | (stood) s where "currentTurn g = p" "seats g p = Some s" "\<not> isStanding s" "\<not> isBusted s"
      "advanceTurn (g\<lparr>seats := (seats g)(p \<mapsto> s\<lparr>isStanding := True\<rparr>),
              message := p @ '' stands.''\<rparr>) = Inr g'"
proof (cases "currentTurn g = p")
  case False
  with assms have "g' = g" by (simp add: handleStand_def)
  then show ?thesis by (rule ignored)
next
  case turn: True
  with assms obtain s where s: "seats g p = Some s"
    by (cases "seats g p") (simp_all add: handleStand_def)
  show ?thesis
  proof (cases "isStanding s \<or> isBusted s")
    case True
    with assms turn s have "g' = g" by (simp add: handleStand_def)
    then show ?thesis by (rule ignored)
  next
    case False
    with assms turn s show ?thesis
      by (intro stood [of s]) (simp_all add: handleStand_def)
  qed
qed

lemma handleHit_cards:
  assumes "handleHit g p = Inr g'"
  shows "\<exists>dealt. deck g = deck g' @ dealt"
    and "twoPlayers g \<Longrightarrow> twoPlayers g' \<and> mset (sessionCards g') = mset (sessionCards g)"
proof -
  show "\<exists>dealt. deck g = deck g' @ dealt"
    using assms
  proof (cases rule: handleHit_cases)
    case ignored then show ?thesis by simp
  next
    case (drew s)
    have "deck g = butlast (deck g) @ [last (deck g)]" using drew(5) by simp
    then show ?thesis unfolding drew(7) by (intro exI [of _ "[last (deck g)]"]) simp
  next
    case (bust s)
    from advanceTurn_cards(3) [OF bust(7)] obtain dealt where
      "butlast (deck g) = deck g' @ dealt" by auto
    then have "butlast (deck g) @ [last (deck g)] = deck g' @ (dealt @ [last (deck g)])" by simp
    then have "deck g = deck g' @ (dealt @ [last (deck g)])" using bust(5) by simp
    then show ?thesis by blast
  qed
  assume tp: "twoPlayers g"
  show "twoPlayers g' \<and> mset (sessionCards g') = mset (sessionCards g)"
    using assms
  proof (cases rule: handleHit_cases)
    case ignored with tp show ?thesis by simp
  next
    case (drew s)
    show ?thesis unfolding drew(7)
      using draw_cards [OF tp drew(2) drew(5)] by simp
  next
    case (bust s)
    let ?g1 = "g\<lparr>deck := butlast (deck g),
              seats := (seats g)(p \<mapsto> s\<lparr>hand := hand s @ [last (deck g)],
                 score := calculateHandTotal (hand s @ [last (deck g)]),
                 isBusted := True\<rparr>),
              message := p @ '' busted!''\<rparr>"
    have 1: "mset (sessionCards ?g1) = mset (sessionCards g)" and 2: "twoPlayers ?g1"
      using draw_cards [OF tp bust(2) bust(5)] by simp_all
    from advanceTurn_cards(1,2) [OF bust(7)] 1 2 show ?thesis by simp
  qed
qed

lemma handleStand_cards:
  assumes "handleStand g p = Inr g'"
  shows "\<exists>dealt. deck g = deck g' @ dealt"
    and "twoPlayers g \<Longrightarrow> twoPlayers g' \<and> mset (sessionCards g') = mset (sessionCards g)"
proof -
  show "\<exists>dealt. deck g = deck g' @ dealt"
    using assms
  proof (cases rule: handleStand_cases)
    case ignored then show ?thesis by simp
  next
    case (stood s)
    from advanceTurn_cards(3) [OF stood(5)] show ?thesis by simp
  qed
  assume tp: "twoPlayers g"
  show "twoPlayers g' \<and> mset (sessionCards g') = mset (sessionCards g)"
    using assms
  proof (cases rule: handleStand_cases)
    case ignored with tp show ?thesis by simp
  next
    case (stood s)
    let ?g1 = "g\<lparr>seats := (seats g)(p \<mapsto> s\<lparr>isStanding := True\<rparr>),
              message := p @ '' stands.''\<rparr>"
    have 1: "mset (sessionCards ?g1) = mset (sessionCards g)" and 2: "twoPlayers ?g1"
      using seat_flag_cards [OF tp stood(2)] by simp_all
    from advanceTurn_cards(1,2) [OF stood(5)] 1 2 show ?thesis by simp
  qed
qed

lemma evolves_cards:
  assumes "evolves g0 g" and "twoPlayers g0"
  shows "twoPlayers g \<and> mset (sessionCards g) = mset (sessionCards g0) \<and>
         (\<exists>dealt. deck g0 = deck g @ dealt)"
  using assms
proof (induction rule: evolves.induct)
  case (start g0)
  then show ?case by simp
next
  case (hit g0 g p g1)
  then obtain dealt where d: "deck g0 = deck g @ dealt" by auto
  from handleHit_cards(1) [OF hit(2)] obtain dealt1 where "deck g = deck g1 @ dealt1" by blast
  with d have "deck g0 = deck g1 @ (dealt1 @ dealt)" by simp
  then have "\<exists>dealt. deck g0 = deck g1 @ dealt" by blast
  with hit handleHit_cards(2) [OF hit(2)] show ?case by simp
next
  case (stand g0 g p g1)
  then obtain dealt where d: "deck g0 = deck g @ dealt" by auto
  from handleStand_cards(1) [OF stand(2)] obtain dealt1 where "deck g = deck g1 @ dealt1" by blast
  with d have "deck g0 = deck g1 @ (dealt1 @ dealt)" by simp
  then have "\<exists>dealt. deck g0 = deck g1 @ dealt" by blast
  with stand handleStand_cards(2) [OF stand(2)] show ?case by simp
qed

lemma initializeGame_twoPlayers:
  assumes "p1 \<noteq> p2" and "initializeGame rnd p1 p2 = Inr g"
  shows "twoPlayers g"
proof -
  from shuffled_last_six [of rnd] obtain rest c6 c5 c4 c3 c2 c1 where
    sh: "shuffleDeck rnd createDeck = rest @ [c6, c5, c4, c3, c2, c1]" by blast
  from initializeGame_deal [OF sh, of p1 p2] assms(2) assms(1)
  show ?thesis by (auto simp: twoPlayers_def)
qed

section \<open>The sample match: evaluation\<close>

lemma sample_ids [simp]:
  "socketA \<noteq> socketB" "socketB \<noteq> socketA"
  "socketA \<noteq> ''dealer''" "socketB \<noteq> ''dealer''"
  "''dealer'' \<noteq> socketA" "''dealer'' \<noteq> socketB"
  by (simp_all add: socketA_def socketB_def)

lemma createDeck_tail:
  "createDeck = take 46 createDeck @
     [spade Nine, spade Ten, spade Jack, spade Queen, spade King, spade Ace]"
  by (simp add: createDeck_def suits_def ranks_def spade_def)

lemma last_sample_deck: "last (take 46 createDeck) = spade Eight"
  by (simp add: createDeck_def suits_def ranks_def spade_def)

lemma sample_deck_nonempty: "take 46 createDeck \<noteq> []" "createDeck \<noteq> []"
  by (simp_all add: createDeck_def suits_def ranks_def)

lemma sampleDeal_dealt: "initializeGame sameIndex socketA socketB = Inr sampleDeal"
proof -
  have "shuffleDeck sameIndex createDeck = take 46 createDeck @
     [spade Nine, spade Ten, spade Jack, spade Queen, spade King, spade Ace]"
    using createDeck_tail by (simp add: shuffleDeck_same)
  from initializeGame_deal [OF this, of socketA socketB] show ?thesis
    by (simp add: sampleDeal_def calculateHandTotal_def adjustAces.simps spade_def)
qed

lemma sampleSelfDeal_dealt: "initializeGame sameIndex socketA socketA = Inr sampleSelfDeal"
proof -
  have "shuffleDeck sameIndex createDeck = take 46 createDeck @
     [spade Nine, spade Ten, spade Jack, spade Queen, spade King, spade Ace]"
    using createDeck_tail by (simp add: shuffleDeck_same)
  from initializeGame_deal [OF this, of socketA socketA] show ?thesis
    by (simp add: sampleSelfDeal_def calculateHandTotal_def adjustAces.simps spade_def)
qed

lemma sample_hit_total:
  "calculateHandTotal [spade Ace, spade Jack, spade Eight] = 19"
  by (simp add: calculateHandTotal_def adjustAces.simps spade_def)

lemma sampleDeal_hit:
  "handleHit sampleDeal socketA =
     Inr (sampleDeal\<lparr>deck := butlast (take 46 createDeck),
            seats := (seats sampleDeal)(socketA \<mapsto>
               (newPlayer [spade Ace, spade Jack])\<lparr>hand := [spade Ace, spade Jack, spade Eight],
                  score := 19\<rparr>),
            message := socketA @ '' hits and gets 8 of Spades.''\<rparr>)"
  by (simp add: handleHit_def sampleDeal_def newPlayer_def last_sample_deck sample_deck_nonempty
      sample_hit_total Let_def) (simp add: spade_def)

lemma skipTurns_dealer:
  "k < length (turnOrder g) \<Longrightarrow> turnOrder g ! k = ''dealer'' \<Longrightarrow> skipTurns g k = Some (Inr k)"
  by (subst skipTurns.simps) simp

lemma skipTurns_active:
  "k < length (turnOrder g) \<Longrightarrow> turnOrder g ! k \<noteq> ''dealer'' \<Longrightarrow>
   seats g (turnOrder g ! k) = Some s \<Longrightarrow> \<not> isBusted s \<Longrightarrow> \<not> isStanding s \<Longrightarrow>
   skipTurns g k = Some (Inr k)"
  by (subst skipTurns.simps) simp

lemma skipTurns_skip:
  "k < length (turnOrder g) \<Longrightarrow> turnOrder g ! k \<noteq> ''dealer'' \<Longrightarrow>
   seats g (turnOrder g ! k) = Some s \<Longrightarrow> isBusted s \<or> isStanding s \<Longrightarrow>
   skipTurns g k = skipTurns g ((k + 1) mod length (turnOrder g))"
  by (subst skipTurns.simps) simp

lemma sampleDeal_stand: "handleStand sampleDeal socketA = Inr sampleTurnB"
proof -
  let ?g1 = "sampleDeal\<lparr>seats := (seats sampleDeal)(socketA \<mapsto>
                   (newPlayer [spade Ace, spade Jack])\<lparr>isStanding := True\<rparr>),
                message := socketA @ '' stands.''\<rparr>"
  have "skipTurns ?g1 1 = Some (Inr 1)"
    by (rule skipTurns_active [where s = "newPlayer [spade King, spade Ten]"])
       (simp_all add: sampleDeal_def newPlayer_def)
  then have "advanceTurn ?g1 = Inr sampleTurnB"
    by (simp add: advanceTurn_def sampleDeal_def sampleTurnB_def Let_def)
  then show ?thesis
    by (simp add: handleStand_def sampleDeal_def newPlayer_def)
qed

lemma sampleTurnB_stand: "handleStand sampleTurnB socketB = Inr sampleOver"
proof -
  let ?g1 = "sampleTurnB\<lparr>seats := (seats sampleTurnB)(socketB \<mapsto>
                   (newPlayer [spade King, spade Ten])\<lparr>isStanding := True\<rparr>),
                message := socketB @ '' stands.''\<rparr>"
  let ?g2 = "?g1\<lparr>turnIndex := 2, currentTurn := ''dealer''\<rparr>"
  let ?g3 = "?g2\<lparr>message := ''Dealer's turn... Dealer stands.''\<rparr>"
  have "skipTurns ?g1 2 = Some (Inr 2)"
    by (rule skipTurns_dealer) (simp_all add: sampleTurnB_def sampleDeal_def)
  moreover have "(turnIndex ?g1 + 1) mod length (turnOrder ?g1) = 2"
    by (simp add: sampleTurnB_def sampleDeal_def)
  ultimately have sk:
    "skipTurns ?g1 ((turnIndex ?g1 + 1) mod length (turnOrder ?g1)) = Some (Inr 2)"
    by simp
  have tot: "calculateHandTotal [spade Queen, spade Nine] = 19"
    by (simp add: calculateHandTotal_def adjustAces.simps spade_def)
  have "dealerLoop (?g2\<lparr>message := ''Dealer's turn...'',
           dealer := (dealer ?g2)\<lparr>score := calculateHandTotal (hand (dealer ?g2))\<rparr>\<rparr>)
        = Inr (?g2\<lparr>message := ''Dealer's turn...''\<rparr>)"
    by (subst dealerLoop.simps) (simp add: sampleTurnB_def sampleDeal_def tot)
  then have d: "handleDealerTurn ?g2 = Inr ?g3"
    by (simp add: handleDealerTurn_def bindE_def sampleTurnB_def sampleDeal_def)
  have o: "determineGameOutcome ?g3 = Inr sampleOver"
    by (simp add: determineGameOutcome_def playerAt_def judgePlayer_def renderId_def
        sampleOver_def sampleTurnB_def sampleDeal_def newPlayer_def calculateHandTotal_def
        adjustAces.simps spade_def)
  have "advanceTurn ?g1 = Inr sampleOver"
    using sk d o by (simp add: advanceTurn_def Let_def bindE_def sampleTurnB_def sampleDeal_def)
  then show ?thesis
    by (simp add: handleStand_def sampleTurnB_def sampleDeal_def newPlayer_def)
qed

section \<open>Deck integrity\<close>

text \<open>
  Claim C7, for a session dealt for two different identities. \<open>initializeGame\<close> returns a
  session, and right after the deal the dealer's hand, the two players' hands and the deck
  together are the 52 cards of \<open>createDeck\<close>, each once, which are all the cards there are.
  Through every later hit and stand the session keeps holding exactly these cards, so no card
  is dealt twice; the deck is always an initial part of the deck as dealt, and every single
  operation leaves an initial part of the deck it found: cards leave at the end only and the
  deck never grows.
\<close>

theorem deck_integrity:
  assumes "player1Id \<noteq> player2Id"
  shows "\<exists>game0. initializeGame rnd player1Id player2Id = Inr game0 \<and>
           mset (sessionCards game0) = mset createDeck \<and>
           distinct (sessionCards game0) \<and> set (sessionCards game0) = UNIV \<and>
           length (sessionCards game0) = 52 \<and>
           (\<forall>game. evolves game0 game \<longrightarrow>
              mset (sessionCards game) = mset createDeck \<and> distinct (sessionCards game) \<and>
              (\<exists>dealt. deck game0 = deck game @ dealt) \<and>
              (\<forall>actor game1. handleHit game actor = Inr game1 \<or> handleStand game actor = Inr game1
                 \<longrightarrow> (\<exists>dealt. deck game = deck game1 @ dealt)))"
proof -
  from initializeGame_returns obtain game0 where
    g0: "initializeGame rnd player1Id player2Id = Inr game0" by blast
  have c0: "mset (sessionCards game0) = mset createDeck"
    using assms g0 by (rule initializeGame_cards)
  have tp: "twoPlayers game0" using assms g0 by (rule initializeGame_twoPlayers)
  have "mset (sessionCards game) = mset createDeck \<and> distinct (sessionCards game) \<and>
              (\<exists>dealt. deck game0 = deck game @ dealt) \<and>
              (\<forall>actor game1. handleHit game actor = Inr game1 \<or> handleStand game actor = Inr game1
                 \<longrightarrow> (\<exists>dealt. deck game = deck game1 @ dealt))"
    if "evolves game0 game" for game
  proof -
    from evolves_cards [OF that tp] c0
    have m: "mset (sessionCards game) = mset createDeck"
      and d: "\<exists>dealt. deck game0 = deck game @ dealt" by simp_all
    from m d full_deck(1) [OF m] handleHit_cards(1) handleStand_cards(1)
    show ?thesis by blast
  qed
  with g0 c0 full_deck [OF c0] show ?thesis by blast
qed


theorem deck_integrity_witness:
  "socketA \<noteq> socketB \<and>
   (\<exists>game0 game1. initializeGame sameIndex socketA socketB = Inr game0 \<and>
      handleHit game0 socketA = Inr game1 \<and> evolves game0 game1 \<and>
      length (deck game0) = 46 \<and> length (deck game1) = 45 \<and>
      length (sessionCards game0) = 52 \<and>
      mset (sessionCards game1) = mset createDeck \<and> distinct (sessionCards game1) \<and>
      (\<exists>dealt. deck game0 = deck game1 @ dealt))"
proof -
  have ne: "socketA \<noteq> socketB" by simp
  from deck_integrity [OF ne, of sameIndex] obtain game0 where
    g0: "initializeGame sameIndex socketA socketB = Inr game0"
    and len: "length (sessionCards game0) = 52"
    and life: "\<And>game. evolves game0 game \<Longrightarrow>
              mset (sessionCards game) = mset createDeck \<and> distinct (sessionCards game) \<and>
              (\<exists>dealt. deck game0 = deck game @ dealt) \<and>
              (\<forall>actor game1. handleHit game actor = Inr game1 \<or> handleStand game actor = Inr game1
                 \<longrightarrow> (\<exists>dealt. deck game = deck game1 @ dealt))"
    by blast
  from g0 have eq: "game0 = sampleDeal" by (simp add: sampleDeal_dealt)
  obtain game1 where h: "handleHit game0 socketA = Inr game1"
    and d1: "deck game1 = butlast (take 46 createDeck)"
    unfolding eq using sampleDeal_hit by simp
  have ev: "evolves game0 game1" using evolves.start h by (rule evolves.hit)
  have l0: "length (deck game0) = 46" by (simp add: eq sampleDeal_def length_createDeck)
  have l1: "length (deck game1) = 45" by (simp add: d1 length_createDeck)
  from life [OF ev] ne g0 h ev l0 l1 len show ?thesis by blast
qed

text \<open>
  Claim C7 as stated speaks of every session. The matchmaking queue takes the same identity
  twice, and \<open>initializeGame\<close> for an identity paired with itself stores both player objects
  under one key, so that the second replaces the first: the session then holds the second
  hand twice over and the first hand not at all.
\<close>

theorem self_paired_deal_incomplete:
  "initializeGame sameIndex socketA socketA = Inr sampleSelfDeal \<and>
   \<not> distinct (sessionCards sampleSelfDeal) \<and>
   mset (sessionCards sampleSelfDeal) \<noteq> mset createDeck"
proof -
  have nd: "\<not> distinct (sessionCards sampleSelfDeal)"
    by (simp add: sessionCards_def sampleSelfDeal_def handAt_def playerAt_def newPlayer_def)
  then have "mset (sessionCards sampleSelfDeal) \<noteq> mset createDeck"
    using full_deck(1) by blast
  with nd sampleSelfDeal_dealt show ?thesis by simp
qed

section \<open>Views\<close>

lemma getGameStateForPlayer_dealer:
  assumes "getGameStateForPlayer g p = Inr v"
  shows "hand (dealer g) \<noteq> []"
    and "dealerState v = \<lparr>dv_hand = [Face (hd (hand (dealer g))), Placeholder],
           dv_score = getCardValue (hd (hand (dealer g))) 0, dv_hideSecondCard = True\<rparr>"
  using assms unfolding getGameStateForPlayer_def
  by (auto split: option.splits list.splits simp del: getCardValue.simps)

lemma getGameStateForPlayer_same_first:
  assumes "hand d \<noteq> []" "hand (dealer g) \<noteq> []" "hd (hand d) = hd (hand (dealer g))"
  shows "getGameStateForPlayer (g\<lparr>dealer := d, deck := k\<rparr>) p = getGameStateForPlayer g p"
proof -
  from assms obtain c r r' where "hand d = c # r" "hand (dealer g) = c # r'"
    by (cases "hand d"; cases "hand (dealer g)") auto
  then show ?thesis
    unfolding getGameStateForPlayer_def
    by (simp split: option.splits del: getCardValue.simps)
qed

lemma getGameStateForPlayer_returns:
  assumes "twoPlayers g" "p \<in> set (players g)" "hand (dealer g) \<noteq> []"
  shows "\<exists>v. getGameStateForPlayer g p = Inr v"
proof -
  from assms(1) obtain p1 p2 s1 s2 where w: "players g = [p1, p2]" "p1 \<noteq> p2"
    "seats g p1 = Some s1" "seats g p2 = Some s2" "dom (seats g) = {p1, p2}"
    by (rule twoPlayersE)
  from assms(3) obtain c r where h: "hand (dealer g) = c # r" by (cases "hand (dealer g)") auto
  from assms(2) w(1) have "p = p1 \<or> p = p2" by simp
  then show ?thesis
  proof
    assume "p = p1"
    with w h show ?thesis unfolding getGameStateForPlayer_def
      by (simp del: getCardValue.simps)
  next
    assume "p = p2"
    with w h show ?thesis unfolding getGameStateForPlayer_def
      by (simp del: getCardValue.simps)
  qed
qed

text \<open>
  Claim C4. While the round is not resolved, whatever view \<open>getGameStateForPlayer\<close> returns
  for any recipient shows as the dealer's hand the dealer's first card and the placeholder,
  and as the dealer's score the value of the first card alone. Two sessions that differ only
  in the dealer's second card (and with it in the dealer's stored score and flag, and in the
  deck) have the same view. For either player of a session of two players whose dealer holds
  a card, a view is returned.
\<close>

theorem projection_masks_dealer:
  assumes "gameOver game = False"
  shows "(\<forall>view. getGameStateForPlayer game recipient = Inr view \<longrightarrow>
            dealerState view =
              \<lparr>dv_hand = [Face (hd (hand (dealer game))), Placeholder],
               dv_score = getCardValue (hd (hand (dealer game))) 0,
               dv_hideSecondCard = True\<rparr>) \<and>
         (\<forall>first second second' rest total' busted' deck'.
            hand (dealer game) = first # second # rest \<longrightarrow>
            getGameStateForPlayer
              (game\<lparr>dealer := \<lparr>hand = first # second' # rest, score = total',
                                isBusted = busted'\<rparr>,
                    deck := deck'\<rparr>) recipient
            = getGameStateForPlayer game recipient) \<and>
         (twoPlayers game \<and> recipient \<in> set (players game) \<and> hand (dealer game) \<noteq> [] \<longrightarrow>
            (\<exists>view. getGameStateForPlayer game recipient = Inr view))"
proof (intro conjI allI impI)
  fix view assume "getGameStateForPlayer game recipient = Inr view"
  then show "dealerState view =
              \<lparr>dv_hand = [Face (hd (hand (dealer game))), Placeholder],
               dv_score = getCardValue (hd (hand (dealer game))) 0,
               dv_hideSecondCard = True\<rparr>"
    by (rule getGameStateForPlayer_dealer(2))
next
  fix first second second' rest total' busted' deck'
  assume "hand (dealer game) = first # second # rest"
  then show "getGameStateForPlayer
              (game\<lparr>dealer := \<lparr>hand = first # second' # rest, score = total',
                                isBusted = busted'\<rparr>,
                    deck := deck'\<rparr>) recipient
            = getGameStateForPlayer game recipient"
    by (intro getGameStateForPlayer_same_first) simp_all
next
  assume "twoPlayers game \<and> recipient \<in> set (players game) \<and> hand (dealer game) \<noteq> []"
  then show "\<exists>view. getGameStateForPlayer game recipient = Inr view"
    using getGameStateForPlayer_returns by blast
qed

theorem projection_masks_dealer_witness:
  "gameOver sampleDeal = False \<and>
   (\<exists>view. getGameStateForPlayer sampleDeal socketB = Inr view \<and>
      dv_hand (dealerState view) = [Face (spade Queen), Placeholder] \<and>
      dv_score (dealerState view) = 10) \<and>
   hand (dealer sampleDeal) = [spade Queen, spade Nine] \<and>
   getGameStateForPlayer
     (sampleDeal\<lparr>dealer := \<lparr>hand = [spade Queen, spade Two], score = 12, isBusted = False\<rparr>,
                 deck := take 46 createDeck\<rparr>) socketB
     = getGameStateForPlayer sampleDeal socketB"
proof -
  have go: "gameOver sampleDeal = False" by (simp add: sampleDeal_def)
  have h: "hand (dealer sampleDeal) = [spade Queen, spade Nine]" by (simp add: sampleDeal_def)
  have tp: "twoPlayers sampleDeal \<and> socketB \<in> set (players sampleDeal) \<and>
      hand (dealer sampleDeal) \<noteq> []"
    by (auto simp: twoPlayers_def sampleDeal_def)
  from projection_masks_dealer [OF go, of socketB] tp h
  obtain view where v: "getGameStateForPlayer sampleDeal socketB = Inr view"
    and d: "dealerState view =
              \<lparr>dv_hand = [Face (hd (hand (dealer sampleDeal))), Placeholder],
               dv_score = getCardValue (hd (hand (dealer sampleDeal))) 0,
               dv_hideSecondCard = True\<rparr>"
    and s: "getGameStateForPlayer
     (sampleDeal\<lparr>dealer := \<lparr>hand = [spade Queen, spade Two], score = 12, isBusted = False\<rparr>,
                 deck := take 46 createDeck\<rparr>) socketB
     = getGameStateForPlayer sampleDeal socketB"
    by blast
  have "dv_hand (dealerState view) = [Face (spade Queen), Placeholder]"
    "dv_score (dealerState view) = 10"
    by (simp_all add: d h spade_def)
  with go v h s show ?thesis by blast
qed

section \<open>Actions out of turn\<close>

text \<open>
  Claim C8. A hit or a stand by an actor who is not the holder of the current turn, or whose
  player object is already standing or busted, returns without an exception and leaves the
  whole session as it was.
\<close>

theorem invalid_action_ignored:
  assumes "currentTurn game \<noteq> actor \<or>
           (\<exists>s. seats game actor = Some s \<and> (isStanding s \<or> isBusted s))"
  shows "handleHit game actor = Inr game \<and> handleStand game actor = Inr game"
  using assms by (auto simp: handleHit_def handleStand_def)

theorem invalid_action_ignored_witness:
  "currentTurn sampleDeal \<noteq> socketB \<and>
   handleHit sampleDeal socketB = Inr sampleDeal \<and> handleStand sampleDeal socketB = Inr sampleDeal \<and>
   currentTurn sampleShowdown \<noteq> socketB \<and> finished sampleShowdown socketB \<and>
   handleHit (sampleShowdown\<lparr>currentTurn := socketB\<rparr>) socketB
     = Inr (sampleShowdown\<lparr>currentTurn := socketB\<rparr>) \<and>
   handleStand (sampleShowdown\<lparr>currentTurn := socketB\<rparr>) socketB
     = Inr (sampleShowdown\<lparr>currentTurn := socketB\<rparr>)"
proof -
  have 1: "currentTurn sampleDeal \<noteq> socketB" by (simp add: sampleDeal_def)
  have 2: "\<exists>s. seats (sampleShowdown\<lparr>currentTurn := socketB\<rparr>) socketB = Some s \<and>
      (isStanding s \<or> isBusted s)"
    by (simp add: sampleShowdown_def)
  have 3: "currentTurn sampleShowdown \<noteq> socketB" "finished sampleShowdown socketB"
    by (simp_all add: sampleShowdown_def finished_def)
  from 1 3 invalid_action_ignored [of sampleDeal socketB]
    invalid_action_ignored [of "sampleShowdown\<lparr>currentTurn := socketB\<rparr>" socketB] 2
  show ?thesis by blast
qed

section \<open>The outcome of a round\<close>

lemma judgePlayer_message:
  "fst (judgePlayer pl d (msg, ty)) = msg @ renderId (id' pl) @ outcomeText (playerOutcome pl d)"
  by (simp add: judgePlayer_def playerOutcome_def)

lemma determineGameOutcome_message:
  assumes "playerAt g 0 = Some pl1" and "playerAt g 1 = Some pl2"
  shows "\<exists>ty. determineGameOutcome g =
      Inr (g\<lparr>gameOver := True,
             gameOverMessage := ''Round over! '' @ renderId (id' pl1) @
                outcomeText (playerOutcome pl1 (dealer g)) @ renderId (id' pl2) @
                outcomeText (playerOutcome pl2 (dealer g)),
             gameOverType := ty\<rparr>)"
proof -
  obtain m1 t1 where j1: "judgePlayer pl1 (dealer g) (''Round over! '', ''info'') = (m1, t1)"
    by (cases "judgePlayer pl1 (dealer g) (''Round over! '', ''info'')") simp
  obtain m2 t2 where j2: "judgePlayer pl2 (dealer g) (m1, t1) = (m2, t2)"
    by (cases "judgePlayer pl2 (dealer g) (m1, t1)") simp
  have "m1 = ''Round over! '' @ renderId (id' pl1) @ outcomeText (playerOutcome pl1 (dealer g))"
    using judgePlayer_message [of pl1 "dealer g" "''Round over! ''" "''info''"] j1 by simp
  moreover have "m2 = m1 @ renderId (id' pl2) @ outcomeText (playerOutcome pl2 (dealer g))"
    using judgePlayer_message [of pl2 "dealer g" m1 t1] j2 by simp
  ultimately have "m2 = ''Round over! '' @ renderId (id' pl1) @
      outcomeText (playerOutcome pl1 (dealer g)) @ renderId (id' pl2) @
      outcomeText (playerOutcome pl2 (dealer g))" by simp
  moreover have "determineGameOutcome g =
      Inr (g\<lparr>gameOver := True, gameOverMessage := m2, gameOverType := t2\<rparr>)"
    using assms j1 j2 by (simp add: determineGameOutcome_def)
  ultimately show ?thesis by blast
qed

text \<open>
  Claim C6. When the round resolves, \<open>determineGameOutcome\<close> sets \<open>gameOver\<close> and builds the
  outcome message from one clause for each of the two players, and the clause of a player
  is the one of that player's own outcome against the dealer, by the precedence: busted if
  the player is busted; else wins if the dealer is busted or the player's total is above the
  dealer's; else loses if it is below; else push. With the first player on 20 and not busted,
  the second busted and the dealer on 18 and not busted, the first wins and the second is
  busted.
\<close>

theorem outcome_by_precedence:
  assumes "playerAt game 0 = Some player1" and "playerAt game 1 = Some player2"
  shows "\<exists>game1. determineGameOutcome game = Inr game1 \<and> gameOver game1 \<and>
           gameOverMessage game1 =
             ''Round over! '' @ renderId (id' player1) @
               outcomeText (playerOutcome player1 (dealer game)) @
             renderId (id' player2) @
               outcomeText (playerOutcome player2 (dealer game)) \<and>
           (score player1 = 20 \<and> \<not> isBusted player1 \<and> isBusted player2 \<and>
            score (dealer game) = 18 \<and> \<not> isBusted (dealer game) \<longrightarrow>
              playerOutcome player1 (dealer game) = Wins \<and>
              playerOutcome player2 (dealer game) = Busted \<and>
              gameOverMessage game1 =
                ''Round over! '' @ renderId (id' player1) @ '' wins! '' @
                renderId (id' player2) @ '' busted. '')"
proof -
  from determineGameOutcome_message [OF assms] obtain ty where
    "determineGameOutcome game =
      Inr (game\<lparr>gameOver := True,
             gameOverMessage := ''Round over! '' @ renderId (id' player1) @
                outcomeText (playerOutcome player1 (dealer game)) @ renderId (id' player2) @
                outcomeText (playerOutcome player2 (dealer game)),
             gameOverType := ty\<rparr>)" by blast
  then show ?thesis by (auto simp: playerOutcome_def)
qed

theorem outcome_by_precedence_witness:
  "(\<exists>player1 player2 game1.
      playerAt sampleShowdown 0 = Some player1 \<and> playerAt sampleShowdown 1 = Some player2 \<and>
      score player1 = 20 \<and> \<not> isBusted player1 \<and> isBusted player2 \<and>
      score (dealer sampleShowdown) = 18 \<and> \<not> isBusted (dealer sampleShowdown) \<and>
      determineGameOutcome sampleShowdown = Inr game1 \<and> gameOver game1 \<and>
      playerOutcome player1 (dealer sampleShowdown) = Wins \<and>
      playerOutcome player2 (dealer sampleShowdown) = Busted \<and>
      gameOverMessage game1 = ''Round over! undefined wins! undefined busted. '')"
proof -
  let ?p1 = "\<lparr>hand = [spade King, spade Queen], score = 20, isBusted = False,
              isStanding = True, chips = 1000, id' = None\<rparr>"
  let ?p2 = "\<lparr>hand = [spade Ten, spade Nine, spade Six], score = 25,
              isBusted = True, isStanding = False, chips = 1000, id' = None\<rparr>"
  have 1: "playerAt sampleShowdown 0 = Some ?p1" and 2: "playerAt sampleShowdown 1 = Some ?p2"
    by (simp_all add: playerAt_def sampleShowdown_def)
  have 3: "score ?p1 = 20 \<and> \<not> isBusted ?p1 \<and> isBusted ?p2 \<and>
      score (dealer sampleShowdown) = 18 \<and> \<not> isBusted (dealer sampleShowdown)"
    by (simp add: sampleShowdown_def)
  from outcome_by_precedence [OF 1 2] 3 obtain game1 where
    g: "determineGameOutcome sampleShowdown = Inr game1" "gameOver game1"
      "playerOutcome ?p1 (dealer sampleShowdown) = Wins"
      "playerOutcome ?p2 (dealer sampleShowdown) = Busted"
      "gameOverMessage game1 =
                ''Round over! '' @ renderId (id' ?p1) @ '' wins! '' @
                renderId (id' ?p2) @ '' busted. ''"
    by blast
  from g(5) have "gameOverMessage game1 = ''Round over! undefined wins! undefined busted. ''"
    by (simp add: renderId_def)
  with 1 2 3 g(1-4) show ?thesis by blast
qed

section \<open>The outcome message\<close>

lemma dealerLoop_over:
  "dealerLoop g = Inr g' \<Longrightarrow> gameOverMessage g' = gameOverMessage g"
proof (induction g rule: dealerLoop.induct)
  case (1 g)
  show ?case
  proof (cases "score (dealer g) < 17")
    case False
    with "1.prems" have "g' = g" by (subst (asm) dealerLoop.simps) simp
    then show ?thesis by simp
  next
    case True
    show ?thesis
    proof (cases "deck g = []")
      case True
      with \<open>score (dealer g) < 17\<close> "1.prems" show ?thesis
        by (subst (asm) dealerLoop.simps) simp
    next
      case False
      let ?c = "last (deck g)"
      let ?g1 = "g\<lparr>deck := butlast (deck g),
                   dealer := (dealer g)\<lparr>hand := hand (dealer g) @ [?c],
                                         score := calculateHandTotal (hand (dealer g) @ [?c])\<rparr>,
                   message := message g @ '' Dealer hits and gets '' @
                        rankText (rank ?c) @ '' of '' @ suitText (suit ?c) @ ''.''\<rparr>"
      from "1.prems" True False have run: "dealerLoop ?g1 = Inr g'"
        by (subst (asm) dealerLoop.simps) (simp add: Let_def)
      from "1.IH" [OF True False refl refl run] show ?thesis by simp
    qed
  qed
qed

lemma handleDealerTurn_over:
  assumes "handleDealerTurn g = Inr g'"
  shows "gameOverMessage g' = gameOverMessage g"
proof -
  from assms obtain g1 where loop: "dealerLoop (g\<lparr>message := ''Dealer's turn...'',
                dealer := (dealer g)\<lparr>score := calculateHandTotal (hand (dealer g))\<rparr>\<rparr>) = Inr g1"
    and fin: "gameOverMessage g' = gameOverMessage g1"
    unfolding handleDealerTurn_def bindE_Inr by (auto split: if_splits)
  from dealerLoop_over [OF loop] fin show ?thesis by simp
qed

lemma determineGameOutcome_verdict:
  assumes "determineGameOutcome g = Inr g'" and "anonymous g"
  shows "verdictMessage (gameOverMessage g')" and "gameOver g'" and "seats g' = seats g"
proof -
  from assms(1) obtain pl1 pl2 where p: "playerAt g 0 = Some pl1" "playerAt g 1 = Some pl2"
    unfolding determineGameOutcome_def by (auto split: option.splits)
  from p assms(2) have ids: "id' pl1 = None" "id' pl2 = None"
    by (auto simp: playerAt_def anonymous_def split: if_splits)
  from determineGameOutcome_message [OF p] assms(1) obtain ty where
    g': "g' = g\<lparr>gameOver := True,
             gameOverMessage := ''Round over! '' @ renderId (id' pl1) @
                outcomeText (playerOutcome pl1 (dealer g)) @ renderId (id' pl2) @
                outcomeText (playerOutcome pl2 (dealer g)),
             gameOverType := ty\<rparr>" by auto
  have "gameOverMessage g' = ''Round over! '' @ ''undefined'' @
      outcomeText (playerOutcome pl1 (dealer g)) @ ''undefined'' @
      outcomeText (playerOutcome pl2 (dealer g))"
    by (simp add: g' ids renderId_def)
  then show "verdictMessage (gameOverMessage g')"
    unfolding verdictMessage_def by (intro exI)
  show "gameOver g'" "seats g' = seats g" by (simp_all add: g')
qed

lemma advanceTurn_verdict:
  assumes "advanceTurn g = Inr g'" and "anonymous g"
    and "gameOver g \<longrightarrow> verdictMessage (gameOverMessage g)"
  shows "anonymous g' \<and> (gameOver g' \<longrightarrow> verdictMessage (gameOverMessage g'))"
proof -
  from advanceTurn_frame [OF assms(1)] have s: "seats g' = seats g" by simp
  with assms(2) have an: "anonymous g'" by (simp add: anonymous_def)
  from assms(1) obtain k where
    k: "skipTurns g ((turnIndex g + 1) mod length (turnOrder g)) = Some (Inr k)"
    unfolding advanceTurn_def by (auto split: option.splits sum.splits)
  let ?g1 = "g\<lparr>turnIndex := k, currentTurn := turnOrder g ! k\<rparr>"
  show ?thesis
  proof (cases "turnOrder g ! k = ''dealer''")
    case False
    with assms(1) k have "g' = ?g1\<lparr>message := ''It's '' @ currentTurn ?g1 @ '''s turn.''\<rparr>"
      unfolding advanceTurn_def by (simp add: Let_def)
    with assms(3) an show ?thesis by simp
  next
    case True
    with assms(1) k have "bindE (handleDealerTurn ?g1) determineGameOutcome = Inr g'"
      unfolding advanceTurn_def by (simp add: Let_def)
    then obtain g2 where d: "handleDealerTurn ?g1 = Inr g2" and o: "determineGameOutcome g2 = Inr g'"
      unfolding bindE_Inr by blast
    from handleDealerTurn_frame [OF d] have "seats g2 = seats g" by simp
    with assms(2) have "anonymous g2" by (simp add: anonymous_def)
    from determineGameOutcome_verdict(1) [OF o this] an show ?thesis by simp
  qed
qed

lemma anonymous_upd:
  assumes "anonymous g" and "id' s' = None" and "seats g1 = (seats g)(p \<mapsto> s')"
  shows "anonymous g1"
  unfolding anonymous_def
proof (intro allI impI)
  fix q t assume "seats g1 q = Some t"
  with assms(3) have "(q = p \<and> t = s') \<or> seats g q = Some t" by (auto split: if_splits)
  with assms(1,2) show "id' t = None" by (auto simp: anonymous_def)
qed

lemma handleHit_verdict:
  assumes "handleHit g p = Inr g'" and "anonymous g"
    and "gameOver g \<longrightarrow> verdictMessage (gameOverMessage g)"
  shows "anonymous g' \<and> (gameOver g' \<longrightarrow> verdictMessage (gameOverMessage g'))"
  using assms(1)
proof (cases rule: handleHit_cases)
  case ignored with assms show ?thesis by simp
next
  case (drew s)
  from assms(2) drew(2) have ids: "id' s = None" by (simp add: anonymous_def)
  have "anonymous g'"
    by (rule anonymous_upd [OF assms(2), where p = p and s' = "s\<lparr>hand := hand s @ [last (deck g)],
                 score := calculateHandTotal (hand s @ [last (deck g)])\<rparr>"])
       (simp_all add: drew(7) ids)
  moreover have "gameOver g' = gameOver g" "gameOverMessage g' = gameOverMessage g"
    by (simp_all add: drew(7))
  ultimately show ?thesis using assms(3) by simp
next
  case (bust s)
  let ?s1 = "s\<lparr>hand := hand s @ [last (deck g)],
                 score := calculateHandTotal (hand s @ [last (deck g)]),
                 isBusted := True\<rparr>"
  let ?g1 = "g\<lparr>deck := butlast (deck g), seats := (seats g)(p \<mapsto> ?s1),
              message := p @ '' busted!''\<rparr>"
  from assms(2) bust(2) have ids: "id' s = None" by (simp add: anonymous_def)
  have an: "anonymous ?g1"
    by (rule anonymous_upd [OF assms(2), where p = p and s' = ?s1]) (simp_all add: ids)
  have go: "gameOver ?g1 \<longrightarrow> verdictMessage (gameOverMessage ?g1)" using assms(3) by simp
  from advanceTurn_verdict [OF bust(7) an go] show ?thesis .
qed

lemma handleStand_verdict:
  assumes "handleStand g p = Inr g'" and "anonymous g"
    and "gameOver g \<longrightarrow> verdictMessage (gameOverMessage g)"
  shows "anonymous g' \<and> (gameOver g' \<longrightarrow> verdictMessage (gameOverMessage g'))"
  using assms(1)
proof (cases rule: handleStand_cases)
  case ignored with assms show ?thesis by simp
next
  case (stood s)
  let ?g1 = "g\<lparr>seats := (seats g)(p \<mapsto> s\<lparr>isStanding := True\<rparr>),
              message := p @ '' stands.''\<rparr>"
  from assms(2) stood(2) have ids: "id' s = None" by (simp add: anonymous_def)
  have an: "anonymous ?g1"
    by (rule anonymous_upd [OF assms(2), where p = p and s' = "s\<lparr>isStanding := True\<rparr>"])
       (simp_all add: ids)
  have go: "gameOver ?g1 \<longrightarrow> verdictMessage (gameOverMessage ?g1)" using assms(3) by simp
  from advanceTurn_verdict [OF stood(5) an go] show ?thesis .
qed

lemma evolves_verdict:
  assumes "evolves g0 g" and "anonymous g0"
    and "gameOver g0 \<longrightarrow> verdictMessage (gameOverMessage g0)"
  shows "anonymous g \<and> (gameOver g \<longrightarrow> verdictMessage (gameOverMessage g))"
  using assms
proof (induction rule: evolves.induct)
  case (start g0) then show ?case by simp
next
  case (hit g0 g p g1)
  then show ?case using handleHit_verdict [of g p g1] by blast
next
  case (stand g0 g p g1)
  then show ?case using handleStand_verdict [of g p g1] by blast
qed

lemma initializeGame_fields:
  assumes "initializeGame rnd p1 p2 = Inr g"
  shows "players g = [p1, p2]" and "turnOrder g = [p1, p2, ''dealer'']"
    and "turnIndex g = 0" and "currentTurn g = p1" and "gameOver g = False"
    and "dom (seats g) = {p1, p2}" and "anonymous g" and "\<not> finished g p1" and "\<not> finished g p2"
proof -
  from shuffled_last_six [of rnd] obtain rest c6 c5 c4 c3 c2 c1 where
    sh: "shuffleDeck rnd createDeck = rest @ [c6, c5, c4, c3, c2, c1]" by blast
  from initializeGame_deal [OF sh, of p1 p2] assms
  have g: "g = \<lparr>deck = rest, players = [p1, p2],
         seats = [p1 \<mapsto> newPlayer [c1, c4], p2 \<mapsto> newPlayer [c2, c5]],
         dealer = \<lparr>hand = [c3, c6], score = calculateHandTotal [c3, c6], isBusted = False\<rparr>,
         currentTurn = p1, turnOrder = [p1, p2, ''dealer''], turnIndex = 0,
         message = ''Game started! Player 1's turn.'',
         gameOver = False, gameOverMessage = [], gameOverType = []\<rparr>" by simp
  show "players g = [p1, p2]" "turnOrder g = [p1, p2, ''dealer'']"
    "turnIndex g = 0" "currentTurn g = p1" "gameOver g = False"
    by (simp_all add: g)
  show "dom (seats g) = {p1, p2}" by (auto simp: g)
  show "anonymous g" by (auto simp: g anonymous_def newPlayer_def split: if_splits)
  show "\<not> finished g p1" "\<not> finished g p2"
    by (simp_all add: g finished_def newPlayer_def)
qed

lemma reachable_verdict:
  assumes "reachable g"
  shows "anonymous g \<and> (gameOver g \<longrightarrow> verdictMessage (gameOverMessage g))"
proof -
  from assms obtain rnd p1 p2 g0 where
    i: "initializeGame rnd p1 p2 = Inr g0" and e: "evolves g0 g"
    unfolding reachable_def by blast
  from initializeGame_fields(5,7) [OF i] evolves_verdict [OF e] show ?thesis by simp
qed

lemma longestWord_ge_run: "run \<le> longestWord cs run"
proof (induction cs arbitrary: run)
  case Nil show ?case by simp
next
  case (Cons c cs)
  show ?case using Cons.IH [of "Suc run"] by (simp add: le_max_iff_disj)
qed

lemma longestWord_prefix:
  "prefix xs cs \<Longrightarrow> CHR '' '' \<notin> set xs \<Longrightarrow> run + length xs \<le> longestWord cs run"
proof (induction cs arbitrary: xs run)
  case Nil then show ?case by simp
next
  case (Cons c cs)
  show ?case
  proof (cases xs)
    case Nil then show ?thesis using longestWord_ge_run [of run "c # cs"] by simp
  next
    case (Cons x xs')
    with Cons.prems have x: "x = c" "prefix xs' cs" "c \<noteq> CHR '' ''" "CHR '' '' \<notin> set xs'"
      by auto
    from Cons.IH [OF x(2) x(4), of "Suc run"] x(3) show ?thesis
      by (simp add: \<open>xs = x # xs'\<close>)
  qed
qed

lemma longestWord_sublist:
  "sublist xs cs \<Longrightarrow> CHR '' '' \<notin> set xs \<Longrightarrow> length xs \<le> longestWord cs run"
proof (induction cs arbitrary: run)
  case Nil then show ?case by simp
next
  case (Cons c cs)
  from Cons.prems(1) consider "prefix xs (c # cs)" | "sublist xs cs"
    by (auto simp: sublist_Cons_right)
  then show ?case
  proof cases
    case 1
    from longestWord_prefix [OF 1 Cons.prems(2), of run] show ?thesis by simp
  next
    case 2
    show ?thesis
    proof (cases "c = CHR '' ''")
      case True
      with Cons.IH [OF 2 Cons.prems(2), of 0] show ?thesis by (simp add: le_max_iff_disj)
    next
      case False
      with Cons.IH [OF 2 Cons.prems(2), of "Suc run"] show ?thesis by simp
    qed
  qed
qed

lemma verdictMessage_words: "verdictMessage m \<Longrightarrow> longestWord m 0 = 9"
proof -
  assume "verdictMessage m"
  then obtain o1 o2 where m: "m = ''Round over! '' @ ''undefined'' @ outcomeText o1 @
                    ''undefined'' @ outcomeText o2" unfolding verdictMessage_def by blast
  show ?thesis unfolding m by (cases o1; cases o2) simp_all
qed

text \<open>
  Claim C10. \<open>determineGameOutcome\<close> names each player by the property \<open>id\<close> of the player
  object, which \<open>initializeGame\<close> does not define and no operation sets. So in every
  reachable session whose round has resolved the outcome message reads \<open>undefined\<close> where a
  player should be named, and it does not contain the identity of either player: a socket id
  has no space and is longer than any word of the message.
\<close>

theorem outcome_message_names_nobody:
  assumes "reachable game" and "gameOver game"
  shows "(\<exists>o1 o2. gameOverMessage game =
            ''Round over! '' @ ''undefined'' @ outcomeText o1 @ ''undefined'' @ outcomeText o2) \<and>
         (\<forall>p \<in> set (players game). 9 < length p \<and> CHR '' '' \<notin> set p \<longrightarrow>
            \<not> sublist p (gameOverMessage game))"
proof -
  from reachable_verdict [OF assms(1)] assms(2)
  have v: "verdictMessage (gameOverMessage game)" by simp
  then have "longestWord (gameOverMessage game) 0 = 9" by (rule verdictMessage_words)
  then have "\<not> sublist p (gameOverMessage game)" if "9 < length p" "CHR '' '' \<notin> set p" for p
    using longestWord_sublist [of p "gameOverMessage game" 0] that by auto
  with v show ?thesis unfolding verdictMessage_def by blast
qed

theorem outcome_message_names_nobody_witness:
  "reachable sampleOver \<and> gameOver sampleOver \<and>
   players sampleOver = [socketA, socketB] \<and>
   9 < length socketA \<and> CHR '' '' \<notin> set socketA \<and>
   9 < length socketB \<and> CHR '' '' \<notin> set socketB \<and>
   gameOverMessage sampleOver = ''Round over! undefined wins! undefined wins! '' \<and>
   \<not> sublist socketA (gameOverMessage sampleOver) \<and>
   \<not> sublist socketB (gameOverMessage sampleOver)"
proof -
  have "evolves sampleDeal sampleTurnB"
    using evolves.start sampleDeal_stand by (rule evolves.stand)
  then have "evolves sampleDeal sampleOver"
    using sampleTurnB_stand by (rule evolves.stand)
  then have r: "reachable sampleOver"
    unfolding reachable_def using sampleDeal_dealt sample_ids(3,4) by blast
  have g: "gameOver sampleOver" by (simp add: sampleOver_def)
  have p: "players sampleOver = [socketA, socketB]"
    by (simp add: sampleOver_def sampleTurnB_def sampleDeal_def)
  have i: "9 < length socketA \<and> CHR '' '' \<notin> set socketA"
    "9 < length socketB \<and> CHR '' '' \<notin> set socketB"
    by (simp_all add: socketA_def socketB_def)
  have m: "gameOverMessage sampleOver = ''Round over! undefined wins! undefined wins! ''"
    by (simp add: sampleOver_def)
  from outcome_message_names_nobody [OF r g] p i
  have "\<not> sublist socketA (gameOverMessage sampleOver)"
    "\<not> sublist socketB (gameOverMessage sampleOver)" by simp_all
  with r g p i m show ?thesis by blast
qed

section \<open>Turn order\<close>

lemma advanceTurn_turn:
  assumes "advanceTurn g = Inr g'"
    and "skipTurns g ((turnIndex g + 1) mod length (turnOrder g)) = Some (Inr k)"
  shows "turnIndex g' = k" and "currentTurn g' = turnOrder g ! k"
proof -
  let ?g1 = "g\<lparr>turnIndex := k, currentTurn := turnOrder g ! k\<rparr>"
  have "turnIndex g' = k \<and> currentTurn g' = turnOrder g ! k"
  proof (cases "turnOrder g ! k = ''dealer''")
    case False
    with assms have "g' = ?g1\<lparr>message := ''It's '' @ currentTurn ?g1 @ '''s turn.''\<rparr>"
      unfolding advanceTurn_def by (simp add: Let_def)
    then show ?thesis by simp
  next
    case True
    with assms have "bindE (handleDealerTurn ?g1) determineGameOutcome = Inr g'"
      unfolding advanceTurn_def by (simp add: Let_def)
    then obtain g2 where d: "handleDealerTurn ?g1 = Inr g2" and o: "determineGameOutcome g2 = Inr g'"
      unfolding bindE_Inr by blast
    from determineGameOutcome_frame [OF o] obtain msg type where
      g': "g' = g2\<lparr>gameOver := True, gameOverMessage := msg, gameOverType := type\<rparr>" by blast
    from handleDealerTurn_frame [OF d] have "turnIndex g2 = turnIndex ?g1"
      "currentTurn g2 = currentTurn ?g1" by simp_all
    then show ?thesis by (simp add: g')
  qed
  then show "turnIndex g' = k" and "currentTurn g' = turnOrder g ! k" by simp_all
qed

lemma finished_seats: "seats g' = seats g \<Longrightarrow> finished g' p = finished g p"
  by (simp add: finished_def)

lemma nextStop_three:
  assumes "length (turnOrder g) = 3"
  shows "nextStop g 0 = find (stopsAt g) [1, 2, 0]"
    and "nextStop g 1 = find (stopsAt g) [2, 0, 1]"
proof -
  have "map (\<lambda>d. (0 + d) mod 3) [1 ..< 3 + 1] = [1, 2, 0::nat]" by (simp add: upt_rec)
  then show "nextStop g 0 = find (stopsAt g) [1, 2, 0]"
    unfolding nextStop_def assms by (simp only:)
  have "map (\<lambda>d. (1 + d) mod 3) [1 ..< 3 + 1] = [2, 0, 1::nat]" by (simp add: upt_rec)
  then show "nextStop g 1 = find (stopsAt g) [2, 0, 1]"
    unfolding nextStop_def assms by (simp only:)
qed

lemma after_finish:
  assumes wf: "p1 \<noteq> ''dealer''" "p2 \<noteq> ''dealer''" "turnOrder g1 = [p1, p2, ''dealer'']"
      "dom (seats g1) = {p1, p2}"
    and pos: "(turnIndex g1 = 0 \<and> finished g1 p1) \<or>
              (turnIndex g1 = 1 \<and> finished g1 p1 \<and> finished g1 p2)"
    and adv: "advanceTurn g1 = Inr g'"
  shows "nextStop g' (turnIndex g1) = Some (turnIndex g') \<and>
         currentTurn g' = turnOrder g' ! turnIndex g' \<and>
         ((turnIndex g' = 1 \<and> \<not> finished g' p2) \<or> (turnIndex g' = 2 \<and> finished g' p2))"
proof -
  from advanceTurn_frame [OF adv] have fr: "seats g' = seats g1" "turnOrder g' = turnOrder g1"
    by simp_all
  have fin: "finished g' q = finished g1 q" for q using fr(1) by (rule finished_seats)
  have len: "length (turnOrder g') = 3" by (simp add: fr wf)
  from wf(4) obtain s2 where s2: "seats g1 p2 = Some s2" by blast
  have last: "skipTurns g1 2 = Some (Inr 2)"
    by (rule skipTurns_dealer) (simp_all add: wf)
  show ?thesis
  proof (cases "turnIndex g1 = 0")
    case first: True
    show ?thesis
    proof (cases "finished g1 p2")
      case False
      with s2 have act: "\<not> isBusted s2" "\<not> isStanding s2" by (simp_all add: finished_def)
      have "skipTurns g1 1 = Some (Inr 1)"
        by (rule skipTurns_active [where s = s2]) (simp_all add: wf s2 act)
      then have sk: "skipTurns g1 ((turnIndex g1 + 1) mod length (turnOrder g1)) = Some (Inr 1)"
        by (simp add: first wf)
      from advanceTurn_turn [OF adv sk] have t: "turnIndex g' = 1" "currentTurn g' = p2"
        by (simp_all add: wf)
      have "stopsAt g' 1" using False by (simp add: stopsAt_def fr wf fin)
      then have "nextStop g' 0 = Some 1" by (subst nextStop_three(1) [OF len]) simp
      with t first False show ?thesis by (simp add: fr wf fin)
    next
      case True
      with s2 have "isBusted s2 \<or> isStanding s2" by (auto simp: finished_def)
      then have "skipTurns g1 1 = skipTurns g1 ((1 + 1) mod length (turnOrder g1))"
        by (intro skipTurns_skip [where s = s2]) (simp_all add: wf s2)
      moreover have "(1 + 1) mod length (turnOrder g1) = 2" by (simp add: wf)
      ultimately have "skipTurns g1 1 = skipTurns g1 2" by (simp only:)
      with last have "skipTurns g1 1 = Some (Inr 2)" by (simp only:)
      then have sk: "skipTurns g1 ((turnIndex g1 + 1) mod length (turnOrder g1)) = Some (Inr 2)"
        by (simp add: first wf)
      from advanceTurn_turn [OF adv sk] have t: "turnIndex g' = 2" "currentTurn g' = ''dealer''"
        by (simp_all add: wf)
      have "\<not> stopsAt g' 1" "stopsAt g' 2" using True by (simp_all add: stopsAt_def fr wf fin)
      then have "nextStop g' 0 = Some 2" by (subst nextStop_three(1) [OF len]) simp
      with t first True show ?thesis by (simp add: fr wf fin)
    qed
  next
    case False
    with pos have second: "turnIndex g1 = 1" and f2: "finished g1 p2" by simp_all
    have "(turnIndex g1 + 1) mod length (turnOrder g1) = 2" by (simp add: second wf)
    with last have sk:
      "skipTurns g1 ((turnIndex g1 + 1) mod length (turnOrder g1)) = Some (Inr 2)" by simp
    from advanceTurn_turn [OF adv sk] have t: "turnIndex g' = 2" "currentTurn g' = ''dealer''"
      by (simp_all add: wf)
    have "stopsAt g' 2" by (simp add: stopsAt_def fr wf)
    then have "nextStop g' 1 = Some 2" by (subst nextStop_three(2) [OF len]) simp
    with t second f2 show ?thesis by (simp add: fr wf fin)
  qed
qed

lemma turnsInOrderI:
  assumes "p1 \<noteq> ''dealer''" "p2 \<noteq> ''dealer''"
    "players g = [p1, p2]" "turnOrder g = [p1, p2, ''dealer'']" "dom (seats g) = {p1, p2}"
    "currentTurn g = turnOrder g ! turnIndex g"
    "(turnIndex g = 0 \<and> \<not> finished g p1 \<and> \<not> finished g p2) \<or>
     (turnIndex g = 1 \<and> finished g p1 \<and> \<not> finished g p2) \<or>
     (turnIndex g = 2 \<and> finished g p1 \<and> finished g p2)"
  shows "turnsInOrder g"
  unfolding turnsInOrder_def
  apply (rule exI [of _ p1])
  apply (rule exI [of _ p2])
  apply (intro conjI)
  apply (rule assms)+
  done

lemma turnsInOrderE:
  assumes "turnsInOrder g"
  obtains p1 p2 where "p1 \<noteq> ''dealer''" "p2 \<noteq> ''dealer''"
    "players g = [p1, p2]" "turnOrder g = [p1, p2, ''dealer'']" "dom (seats g) = {p1, p2}"
    "currentTurn g = turnOrder g ! turnIndex g"
    "(turnIndex g = 0 \<and> \<not> finished g p1 \<and> \<not> finished g p2) \<or>
     (turnIndex g = 1 \<and> finished g p1 \<and> \<not> finished g p2) \<or>
     (turnIndex g = 2 \<and> finished g p1 \<and> finished g p2)"
proof -
  from assms obtain p1 p2 where
    "p1 \<noteq> ''dealer'' \<and> p2 \<noteq> ''dealer'' \<and>
        players g = [p1, p2] \<and> turnOrder g = [p1, p2, ''dealer''] \<and>
        dom (seats g) = {p1, p2} \<and>
        currentTurn g = turnOrder g ! turnIndex g \<and>
        ((turnIndex g = 0 \<and> \<not> finished g p1 \<and> \<not> finished g p2) \<or>
         (turnIndex g = 1 \<and> finished g p1 \<and> \<not> finished g p2) \<or>
         (turnIndex g = 2 \<and> finished g p1 \<and> finished g p2))"
    unfolding turnsInOrder_def by (elim exE)
  then show ?thesis by (intro that [of p1 p2]) simp_all
qed

lemma finish_step:
  assumes inv: "turnsInOrder g" and turn: "currentTurn g = p" and seat: "seats g p = Some s"
    and act: "\<not> isStanding s" "\<not> isBusted s"
    and flagged: "isStanding s' \<or> isBusted s'"
    and g1: "seats g1 = (seats g)(p \<mapsto> s')" "players g1 = players g"
      "turnOrder g1 = turnOrder g" "turnIndex g1 = turnIndex g"
    and adv: "advanceTurn g1 = Inr g'"
  shows "turnsInOrder g'"
    and "nextStop g' (turnIndex g) = Some (turnIndex g')"
    and "currentTurn g' = turnOrder g' ! turnIndex g'"
    and "turnOrder g' = turnOrder g"
    and "currentTurn g' = ''dealer'' \<longrightarrow> (\<forall>q \<in> set (players g'). finished g' q)"
proof -
  from inv obtain p1 p2 where w: "p1 \<noteq> ''dealer''" "p2 \<noteq> ''dealer''"
      "players g = [p1, p2]" "turnOrder g = [p1, p2, ''dealer'']" "dom (seats g) = {p1, p2}"
      "currentTurn g = turnOrder g ! turnIndex g"
    and idx: "(turnIndex g = 0 \<and> \<not> finished g p1 \<and> \<not> finished g p2) \<or>
         (turnIndex g = 1 \<and> finished g p1 \<and> \<not> finished g p2) \<or>
         (turnIndex g = 2 \<and> finished g p1 \<and> finished g p2)"
    by (rule turnsInOrderE)
  from seat w(5) have pin: "p = p1 \<or> p = p2" by blast
  from seat act have notfin: "\<not> finished g p" by (simp add: finished_def)
  have fin1: "finished g1 p" using flagged g1(1) by (auto simp: finished_def)
  have other: "finished g1 q = finished g q" if "q \<noteq> p" for q
    using that g1(1) by (simp add: finished_def)
  have dom1: "dom (seats g1) = {p1, p2}" using g1(1) w(5) pin by auto
  have pos: "(turnIndex g1 = 0 \<and> finished g1 p1) \<or>
             (turnIndex g1 = 1 \<and> finished g1 p1 \<and> finished g1 p2)"
  proof -
    from idx consider (a) "turnIndex g = 0" | (b) "turnIndex g = 1" "finished g p1"
      | (c) "turnIndex g = 2" by (elim disjE conjE) simp_all
    then show ?thesis
    proof cases
      case a
      with w(4,6) turn have "p = p1" by simp
      with fin1 a show ?thesis by (simp add: g1)
    next
      case b
      with w(4,6) turn have p: "p = p2" by simp
      with b(2) notfin have "p1 \<noteq> p" by auto
      with other b(2) have "finished g1 p1" by simp
      with fin1 p b(1) show ?thesis by (simp add: g1)
    next
      case c
      with w(4,6) turn have "p = ''dealer''" by simp
      with pin w(1,2) show ?thesis by simp
    qed
  qed
  have wf1: "turnOrder g1 = [p1, p2, ''dealer'']" by (simp add: g1 w)
  from pos have f1: "finished g1 p1" by auto
  from after_finish [OF w(1,2) wf1 dom1 pos adv]
  have r: "nextStop g' (turnIndex g1) = Some (turnIndex g')"
    "currentTurn g' = turnOrder g' ! turnIndex g'"
    "(turnIndex g' = 1 \<and> \<not> finished g' p2) \<or> (turnIndex g' = 2 \<and> finished g' p2)"
    by simp_all
  from advanceTurn_frame [OF adv] have fr: "seats g' = seats g1" "players g' = players g1"
    "turnOrder g' = turnOrder g1" by simp_all
  have f1': "finished g' p1" using f1 finished_seats [OF fr(1), of p1] by simp
  show "nextStop g' (turnIndex g) = Some (turnIndex g')" using r(1) by (simp add: g1)
  show "currentTurn g' = turnOrder g' ! turnIndex g'" by (rule r(2))
  show "turnOrder g' = turnOrder g" by (simp add: fr g1)
  have a1: "players g' = [p1, p2]" by (simp add: fr g1 w)
  have a2: "turnOrder g' = [p1, p2, ''dealer'']" by (simp add: fr wf1)
  have a3: "dom (seats g') = {p1, p2}" by (simp add: fr dom1)
  have a4: "(turnIndex g' = 0 \<and> \<not> finished g' p1 \<and> \<not> finished g' p2) \<or>
         (turnIndex g' = 1 \<and> finished g' p1 \<and> \<not> finished g' p2) \<or>
         (turnIndex g' = 2 \<and> finished g' p1 \<and> finished g' p2)"
    using r(3) f1' by auto
  from w(1,2) a1 a2 a3 r(2) a4 show "turnsInOrder g'" by (rule turnsInOrderI)
  show "currentTurn g' = ''dealer'' \<longrightarrow> (\<forall>q \<in> set (players g'). finished g' q)"
  proof
    assume d: "currentTurn g' = ''dealer''"
    from r(3) show "\<forall>q \<in> set (players g'). finished g' q"
    proof
      assume "turnIndex g' = 1 \<and> \<not> finished g' p2"
      with r(2) d have "p2 = ''dealer''" by (simp add: fr wf1)
      with w(2) show ?thesis by simp
    next
      assume "turnIndex g' = 2 \<and> finished g' p2"
      with f1' show ?thesis by (simp add: fr g1 w)
    qed
  qed
qed

lemma stay_step:
  assumes inv: "turnsInOrder g" and seat: "seats g p = Some s"
    and same: "isStanding s' = isStanding s" "isBusted s' = isBusted s"
    and g': "seats g' = (seats g)(p \<mapsto> s')" "players g' = players g"
      "turnOrder g' = turnOrder g" "turnIndex g' = turnIndex g" "currentTurn g' = currentTurn g"
  shows "turnsInOrder g'"
proof -
  from inv obtain p1 p2 where w: "p1 \<noteq> ''dealer''" "p2 \<noteq> ''dealer''"
      "players g = [p1, p2]" "turnOrder g = [p1, p2, ''dealer'']" "dom (seats g) = {p1, p2}"
      "currentTurn g = turnOrder g ! turnIndex g"
    and idx: "(turnIndex g = 0 \<and> \<not> finished g p1 \<and> \<not> finished g p2) \<or>
         (turnIndex g = 1 \<and> finished g p1 \<and> \<not> finished g p2) \<or>
         (turnIndex g = 2 \<and> finished g p1 \<and> finished g p2)"
    by (rule turnsInOrderE)
  from seat w(5) have pin: "p = p1 \<or> p = p2" by blast
  have fin: "finished g' q = finished g q" for q
    using seat same g'(1) by (simp add: finished_def)
  have dom': "dom (seats g') = {p1, p2}" using g'(1) w(5) pin by auto
  have a1: "players g' = [p1, p2]" by (simp add: g' w)
  have a2: "turnOrder g' = [p1, p2, ''dealer'']" by (simp add: g' w)
  have a3: "currentTurn g' = turnOrder g' ! turnIndex g'" by (simp add: g' w(6))
  have a4: "(turnIndex g' = 0 \<and> \<not> finished g' p1 \<and> \<not> finished g' p2) \<or>
         (turnIndex g' = 1 \<and> finished g' p1 \<and> \<not> finished g' p2) \<or>
         (turnIndex g' = 2 \<and> finished g' p1 \<and> finished g' p2)"
    using idx by (simp add: fin g')
  from w(1,2) a1 a2 dom' a3 a4 show ?thesis by (rule turnsInOrderI)
qed

lemma handleHit_inv:
  assumes "handleHit g p = Inr g'" and "turnsInOrder g"
  shows "turnsInOrder g'"
  using assms(1)
proof (cases rule: handleHit_cases)
  case ignored with assms(2) show ?thesis by simp
next
  case (drew s)
  show ?thesis
    by (rule stay_step [OF assms(2) drew(2), where s' = "s\<lparr>hand := hand s @ [last (deck g)],
                 score := calculateHandTotal (hand s @ [last (deck g)])\<rparr>"])
       (simp_all add: drew(7))
next
  case (bust s)
  show ?thesis
    by (rule finish_step(1) [OF assms(2) bust(1) bust(2) bust(3) bust(4) _ _ _ _ _ bust(7)])
       simp_all
qed

lemma handleStand_inv:
  assumes "handleStand g p = Inr g'" and "turnsInOrder g"
  shows "turnsInOrder g'"
  using assms(1)
proof (cases rule: handleStand_cases)
  case ignored with assms(2) show ?thesis by simp
next
  case (stood s)
  show ?thesis
    by (rule finish_step(1) [OF assms(2) stood(1) stood(2) stood(3) stood(4) _ _ _ _ _ stood(5)])
       simp_all
qed

lemma reachable_inv:
  assumes "reachable g"
  shows "turnsInOrder g"
proof -
  from assms obtain rnd p1 p2 g0 where ne: "p1 \<noteq> ''dealer''" "p2 \<noteq> ''dealer''"
    and i: "initializeGame rnd p1 p2 = Inr g0" and e: "evolves g0 g"
    unfolding reachable_def by blast
  note f = initializeGame_fields [OF i]
  have "turnsInOrder g0"
    by (rule turnsInOrderI [of p1 p2]) (simp_all add: ne f)
  with e show ?thesis
  proof (induction rule: evolves.induct)
    case (start g0) then show ?case .
  next
    case (hit g0 g p g1) then show ?case using handleHit_inv by blast
  next
    case (stand g0 g p g1) then show ?case using handleStand_inv by blast
  qed
qed

lemma dealerLoop_no_spin: "dealerLoop g \<noteq> Inl Diverges"
proof (induction g rule: dealerLoop.induct)
  case (1 g)
  show ?case
  proof (cases "score (dealer g) < 17")
    case False
    then show ?thesis by (subst dealerLoop.simps) simp
  next
    case low: True
    show ?thesis
    proof (cases "deck g = []")
      case True
      with low show ?thesis by (subst dealerLoop.simps) simp
    next
      case False
      from "1.IH" [OF low False refl refl] low False show ?thesis
        by (subst dealerLoop.simps) (simp add: Let_def)
    qed
  qed
qed

lemma handleDealerTurn_no_spin: "handleDealerTurn g \<noteq> Inl Diverges"
proof -
  let ?g0 = "g\<lparr>message := ''Dealer's turn...'',
                dealer := (dealer g)\<lparr>score := calculateHandTotal (hand (dealer g))\<rparr>\<rparr>"
  show ?thesis
  proof (cases "dealerLoop ?g0")
    case (Inl e)
    with dealerLoop_no_spin [of ?g0] have "e \<noteq> Diverges" by auto
    with Inl show ?thesis by (simp add: handleDealerTurn_def bindE_def)
  next
    case (Inr g1)
    then show ?thesis by (simp add: handleDealerTurn_def bindE_def)
  qed
qed

lemma determineGameOutcome_no_spin: "determineGameOutcome g \<noteq> Inl Diverges"
  by (simp add: determineGameOutcome_def split: option.splits prod.splits)

lemma advanceTurn_no_spin:
  assumes "skipTurns g ((turnIndex g + 1) mod length (turnOrder g)) = Some (Inr k)"
  shows "advanceTurn g \<noteq> Inl Diverges"
proof -
  let ?g1 = "g\<lparr>turnIndex := k, currentTurn := turnOrder g ! k\<rparr>"
  show ?thesis
  proof (cases "turnOrder g ! k = ''dealer''")
    case False
    with assms show ?thesis by (simp add: advanceTurn_def Let_def)
  next
    case True
    have "bindE (handleDealerTurn ?g1) determineGameOutcome \<noteq> Inl Diverges"
    proof (cases "handleDealerTurn ?g1")
      case (Inl e)
      with handleDealerTurn_no_spin [of ?g1] have "e \<noteq> Diverges" by auto
      with Inl show ?thesis by (simp add: bindE_def)
    next
      case (Inr g2)
      with determineGameOutcome_no_spin [of g2] show ?thesis by (simp add: bindE_def)
    qed
    with assms True show ?thesis by (simp add: advanceTurn_def Let_def)
  qed
qed

lemma skipTurns_after_finish:
  assumes wf: "p1 \<noteq> ''dealer''" "p2 \<noteq> ''dealer''" "turnOrder g1 = [p1, p2, ''dealer'']"
      "dom (seats g1) = {p1, p2}"
    and pos: "(turnIndex g1 = 0 \<and> finished g1 p1) \<or>
              (turnIndex g1 = 1 \<and> finished g1 p1 \<and> finished g1 p2)"
  shows "\<exists>k. skipTurns g1 ((turnIndex g1 + 1) mod length (turnOrder g1)) = Some (Inr k)"
proof -
  from wf(4) obtain s2 where s2: "seats g1 p2 = Some s2" by blast
  have last: "skipTurns g1 2 = Some (Inr 2)"
    by (rule skipTurns_dealer) (simp_all add: wf)
  show ?thesis
  proof (cases "turnIndex g1 = 0")
    case first: True
    show ?thesis
    proof (cases "finished g1 p2")
      case False
      with s2 have act: "\<not> isBusted s2" "\<not> isStanding s2" by (simp_all add: finished_def)
      have "skipTurns g1 1 = Some (Inr 1)"
        by (rule skipTurns_active [where s = s2]) (simp_all add: wf s2 act)
      then have "skipTurns g1 ((turnIndex g1 + 1) mod length (turnOrder g1)) = Some (Inr 1)"
        by (simp add: first wf)
      then show ?thesis by (rule exI)
    next
      case True
      with s2 have "isBusted s2 \<or> isStanding s2" by (auto simp: finished_def)
      then have "skipTurns g1 1 = skipTurns g1 ((1 + 1) mod length (turnOrder g1))"
        by (intro skipTurns_skip [where s = s2]) (simp_all add: wf s2)
      moreover have "(1 + 1) mod length (turnOrder g1) = 2" by (simp add: wf)
      ultimately have "skipTurns g1 1 = skipTurns g1 2" by (simp only:)
      with last have "skipTurns g1 1 = Some (Inr 2)" by (simp only:)
      then have "skipTurns g1 ((turnIndex g1 + 1) mod length (turnOrder g1)) = Some (Inr 2)"
        by (simp add: first wf)
      then show ?thesis by (rule exI)
    qed
  next
    case False
    with pos have second: "turnIndex g1 = 1" by simp
    have "(turnIndex g1 + 1) mod length (turnOrder g1) = 2" by (simp add: second wf)
    with last have
      "skipTurns g1 ((turnIndex g1 + 1) mod length (turnOrder g1)) = Some (Inr 2)" by simp
    then show ?thesis by (rule exI)
  qed
qed

lemma finish_no_spin:
  assumes inv: "turnsInOrder g" and turn: "currentTurn g = p" and seat: "seats g p = Some s"
    and act: "\<not> isStanding s" "\<not> isBusted s"
    and flagged: "isStanding s' \<or> isBusted s'"
    and g1: "seats g1 = (seats g)(p \<mapsto> s')" "turnOrder g1 = turnOrder g"
      "turnIndex g1 = turnIndex g"
  shows "advanceTurn g1 \<noteq> Inl Diverges"
proof -
  from inv obtain p1 p2 where w: "p1 \<noteq> ''dealer''" "p2 \<noteq> ''dealer''"
      "players g = [p1, p2]" "turnOrder g = [p1, p2, ''dealer'']" "dom (seats g) = {p1, p2}"
      "currentTurn g = turnOrder g ! turnIndex g"
    and idx: "(turnIndex g = 0 \<and> \<not> finished g p1 \<and> \<not> finished g p2) \<or>
         (turnIndex g = 1 \<and> finished g p1 \<and> \<not> finished g p2) \<or>
         (turnIndex g = 2 \<and> finished g p1 \<and> finished g p2)"
    by (rule turnsInOrderE)
  from seat w(5) have pin: "p = p1 \<or> p = p2" by blast
  from seat act have notfin: "\<not> finished g p" by (simp add: finished_def)
  have fin1: "finished g1 p" using flagged g1(1) by (auto simp: finished_def)
  have other: "finished g1 q = finished g q" if "q \<noteq> p" for q
    using that g1(1) by (simp add: finished_def)
  have dom1: "dom (seats g1) = {p1, p2}" using g1(1) w(5) pin by auto
  have pos: "(turnIndex g1 = 0 \<and> finished g1 p1) \<or>
             (turnIndex g1 = 1 \<and> finished g1 p1 \<and> finished g1 p2)"
  proof -
    from idx consider (a) "turnIndex g = 0" | (b) "turnIndex g = 1" "finished g p1"
      | (c) "turnIndex g = 2" by (elim disjE conjE) simp_all
    then show ?thesis
    proof cases
      case a
      with w(4,6) turn have "p = p1" by simp
      with fin1 a show ?thesis by (simp add: g1)
    next
      case b
      with w(4,6) turn have p: "p = p2" by simp
      with b(2) notfin have "p1 \<noteq> p" by auto
      with other b(2) have "finished g1 p1" by simp
      with fin1 p b(1) show ?thesis by (simp add: g1)
    next
      case c
      with w(4,6) turn have "p = ''dealer''" by simp
      with pin w(1,2) show ?thesis by simp
    qed
  qed
  have wf1: "turnOrder g1 = [p1, p2, ''dealer'']" by (simp add: g1 w)
  from skipTurns_after_finish [OF w(1,2) wf1 dom1 pos] obtain k where
    "skipTurns g1 ((turnIndex g1 + 1) mod length (turnOrder g1)) = Some (Inr k)" by blast
  then show ?thesis by (rule advanceTurn_no_spin)
qed

lemma valid_action_no_spin:
  assumes inv: "turnsInOrder g" and turn: "currentTurn g = p" and seat: "seats g p = Some s"
    and act: "\<not> isStanding s" "\<not> isBusted s"
  shows "handleStand g p \<noteq> Inl Diverges" and "handleHit g p \<noteq> Inl Diverges"
proof -
  have "advanceTurn (g\<lparr>seats := (seats g)(p \<mapsto> s\<lparr>isStanding := True\<rparr>),
              message := p @ '' stands.''\<rparr>) \<noteq> Inl Diverges"
    by (rule finish_no_spin [OF inv turn seat act, where s' = "s\<lparr>isStanding := True\<rparr>"])
       simp_all
  with turn seat act show "handleStand g p \<noteq> Inl Diverges" by (simp add: handleStand_def)
  let ?t = "calculateHandTotal (hand s @ [last (deck g)])"
  have "advanceTurn (g\<lparr>deck := butlast (deck g),
              seats := (seats g)(p \<mapsto> s\<lparr>hand := hand s @ [last (deck g)],
                 score := ?t, isBusted := True\<rparr>),
              message := p @ '' busted!''\<rparr>) \<noteq> Inl Diverges"
    by (rule finish_no_spin [OF inv turn seat act, where s' = "s\<lparr>hand := hand s @ [last (deck g)],
                 score := ?t, isBusted := True\<rparr>"]) simp_all
  with turn seat act show "handleHit g p \<noteq> Inl Diverges"
    by (simp add: handleHit_def Let_def)
qed

text \<open>
  Claim C5. In a reachable session, take a valid action: the actor holds the turn and is
  neither standing nor busted. After a hit that returns with the actor's recomputed total at
  most 21, the turn (and its index) is unchanged and is the actor's. After a stand, or a hit
  that returns with the recomputed total above 21, the turn has moved to the first entry of
  the turn order, going round from the entry after the old one, that is the dealer's or a
  player neither standing nor busted; and when that entry is the dealer's, both players are
  standing or busted. Neither action of a valid actor makes the skipping loop of
  \<open>advanceTurn\<close> run for ever.
\<close>

theorem turn_order:
  assumes "reachable game" and "currentTurn game = actor" and "seats game actor = Some s"
    and "\<not> isStanding s" and "\<not> isBusted s"
  shows "(\<forall>game1 s1. handleHit game actor = Inr game1 \<and> seats game1 actor = Some s1 \<and>
             score s1 \<le> 21 \<longrightarrow>
             currentTurn game1 = currentTurn game \<and> currentTurn game1 = actor \<and>
             turnIndex game1 = turnIndex game) \<and>
         (\<forall>game1. handleStand game actor = Inr game1 \<or>
             (handleHit game actor = Inr game1 \<and>
              (\<exists>s1. seats game1 actor = Some s1 \<and> score s1 > 21)) \<longrightarrow>
             nextStop game1 (turnIndex game) = Some (turnIndex game1) \<and>
             currentTurn game1 = turnOrder game1 ! turnIndex game1 \<and>
             turnOrder game1 = turnOrder game \<and>
             (currentTurn game1 = ''dealer'' \<longrightarrow>
                (\<forall>p \<in> set (players game1). finished game1 p))) \<and>
         handleHit game actor \<noteq> Inl Diverges \<and> handleStand game actor \<noteq> Inl Diverges"
proof (intro conjI allI impI)
  fix game1 s1
  assume a: "handleHit game actor = Inr game1 \<and> seats game1 actor = Some s1 \<and> score s1 \<le> 21"
  then have h: "handleHit game actor = Inr game1" by simp
  let ?t = "calculateHandTotal (hand s @ [last (deck game)])"
  have "currentTurn game1 = currentTurn game \<and> turnIndex game1 = turnIndex game"
  proof (cases "?t > 21")
    case False
    with h assms show ?thesis by (auto simp: handleHit_def Let_def split: if_splits)
  next
    case True
    with h assms have ne: "deck game \<noteq> []" and
      adv: "advanceTurn (game\<lparr>deck := butlast (deck game),
              seats := (seats game)(actor \<mapsto> s\<lparr>hand := hand s @ [last (deck game)],
                 score := ?t, isBusted := True\<rparr>),
              message := actor @ '' busted!''\<rparr>) = Inr game1"
      by (auto simp: handleHit_def Let_def split: if_splits)
    from advanceTurn_frame [OF adv] have "seats game1 actor = Some (s\<lparr>hand := hand s @ [last (deck game)],
                 score := ?t, isBusted := True\<rparr>)" by simp
    with a have "score s1 = ?t" by auto
    with a True show ?thesis by simp
  qed
  with assms(2) show "currentTurn game1 = currentTurn game" "currentTurn game1 = actor"
    "turnIndex game1 = turnIndex game" by simp_all
next
  fix game1
  assume a: "handleStand game actor = Inr game1 \<or>
             (handleHit game actor = Inr game1 \<and>
              (\<exists>s1. seats game1 actor = Some s1 \<and> score s1 > 21))"
  have inv: "turnsInOrder game" using assms(1) by (rule reachable_inv)
  have "\<exists>s' g1. (isStanding s' \<or> isBusted s') \<and> seats g1 = (seats game)(actor \<mapsto> s') \<and>
      players g1 = players game \<and> turnOrder g1 = turnOrder game \<and>
      turnIndex g1 = turnIndex game \<and> advanceTurn g1 = Inr game1"
    using a
  proof
    assume "handleStand game actor = Inr game1"
    with assms have "advanceTurn (game\<lparr>seats := (seats game)(actor \<mapsto> s\<lparr>isStanding := True\<rparr>),
              message := actor @ '' stands.''\<rparr>) = Inr game1"
      by (simp add: handleStand_def)
    then show ?thesis
      by (intro exI [of _ "s\<lparr>isStanding := True\<rparr>"]
          exI [of _ "game\<lparr>seats := (seats game)(actor \<mapsto> s\<lparr>isStanding := True\<rparr>),
              message := actor @ '' stands.''\<rparr>"]) simp
  next
    let ?t = "calculateHandTotal (hand s @ [last (deck game)])"
    assume b: "handleHit game actor = Inr game1 \<and>
              (\<exists>s1. seats game1 actor = Some s1 \<and> score s1 > 21)"
    then have h: "handleHit game actor = Inr game1" by simp
    have "?t > 21"
    proof (rule ccontr)
      assume "\<not> ?t > 21"
      with h assms have "seats game1 actor = Some (s\<lparr>hand := hand s @ [last (deck game)],
                 score := ?t\<rparr>)"
        by (auto simp: handleHit_def Let_def split: if_splits)
      with b \<open>\<not> ?t > 21\<close> show False by auto
    qed
    with h assms have
      "advanceTurn (game\<lparr>deck := butlast (deck game),
              seats := (seats game)(actor \<mapsto> s\<lparr>hand := hand s @ [last (deck game)],
                 score := ?t, isBusted := True\<rparr>),
              message := actor @ '' busted!''\<rparr>) = Inr game1"
      by (auto simp: handleHit_def Let_def split: if_splits)
    then show ?thesis
      by (intro exI [of _ "s\<lparr>hand := hand s @ [last (deck game)],
                 score := ?t, isBusted := True\<rparr>"]
          exI [of _ "game\<lparr>deck := butlast (deck game),
              seats := (seats game)(actor \<mapsto> s\<lparr>hand := hand s @ [last (deck game)],
                 score := ?t, isBusted := True\<rparr>),
              message := actor @ '' busted!''\<rparr>"]) simp
  qed
  then obtain s' g1 where st: "isStanding s' \<or> isBusted s'"
      "seats g1 = (seats game)(actor \<mapsto> s')" "players g1 = players game"
      "turnOrder g1 = turnOrder game" "turnIndex g1 = turnIndex game"
      "advanceTurn g1 = Inr game1" by blast
  note fs = finish_step [OF inv assms(2) assms(3) assms(4) assms(5) st]
  show "nextStop game1 (turnIndex game) = Some (turnIndex game1)" by (rule fs(2))
  show "currentTurn game1 = turnOrder game1 ! turnIndex game1" by (rule fs(3))
  show "turnOrder game1 = turnOrder game" by (rule fs(4))
  assume "currentTurn game1 = ''dealer''"
  with fs(5) show "\<forall>p \<in> set (players game1). finished game1 p" by (rule mp)
next
  have inv: "turnsInOrder game" using assms(1) by (rule reachable_inv)
  show "handleHit game actor \<noteq> Inl Diverges"
    using inv assms(2) assms(3) assms(4) assms(5) by (rule valid_action_no_spin(2))
  show "handleStand game actor \<noteq> Inl Diverges"
    using inv assms(2) assms(3) assms(4) assms(5) by (rule valid_action_no_spin(1))
qed

theorem turn_order_witness:
  "reachable sampleDeal \<and> currentTurn sampleDeal = socketA \<and> turnIndex sampleDeal = 0 \<and>
   (\<exists>s. seats sampleDeal socketA = Some s \<and> \<not> isStanding s \<and> \<not> isBusted s) \<and>
   (\<exists>game1 s1. handleHit sampleDeal socketA = Inr game1 \<and>
      seats game1 socketA = Some s1 \<and> score s1 = 19 \<and>
      currentTurn game1 = socketA \<and> turnIndex game1 = 0) \<and>
   handleStand sampleDeal socketA = Inr sampleTurnB \<and>
   nextStop sampleTurnB 0 = Some 1 \<and> turnIndex sampleTurnB = 1 \<and>
   currentTurn sampleTurnB = socketB \<and>
   reachable sampleTurnB \<and>
   (\<exists>s. seats sampleTurnB socketB = Some s \<and> \<not> isStanding s \<and> \<not> isBusted s) \<and>
   handleStand sampleTurnB socketB = Inr sampleOver \<and>
   nextStop sampleOver 1 = Some 2 \<and> currentTurn sampleOver = ''dealer'' \<and>
   finished sampleOver socketA \<and> finished sampleOver socketB"
proof -
  have r0: "reachable sampleDeal"
    unfolding reachable_def
    by (rule exI [of _ sameIndex], rule exI [of _ socketA], rule exI [of _ socketB],
        rule exI [of _ sampleDeal]) (simp add: sampleDeal_dealt evolves.start)
  have e1: "evolves sampleDeal sampleTurnB"
    using evolves.start sampleDeal_stand by (rule evolves.stand)
  have r1: "reachable sampleTurnB"
    unfolding reachable_def
    by (rule exI [of _ sameIndex], rule exI [of _ socketA], rule exI [of _ socketB],
        rule exI [of _ sampleDeal]) (simp add: sampleDeal_dealt e1)
  let ?sa = "newPlayer [spade Ace, spade Jack]"
  let ?sb = "newPlayer [spade King, spade Ten]"
  have a: "currentTurn sampleDeal = socketA" "seats sampleDeal socketA = Some ?sa"
    "\<not> isStanding ?sa" "\<not> isBusted ?sa" "turnIndex sampleDeal = 0"
    by (simp_all add: sampleDeal_def newPlayer_def)
  have b: "currentTurn sampleTurnB = socketB" "seats sampleTurnB socketB = Some ?sb"
    "\<not> isStanding ?sb" "\<not> isBusted ?sb" "turnIndex sampleTurnB = 1"
    by (simp_all add: sampleTurnB_def sampleDeal_def newPlayer_def)
  note t0 = turn_order [OF r0 a(1) a(2) a(3) a(4)]
  note t1 = turn_order [OF r1 b(1) b(2) b(3) b(4)]
  let ?s1 = "?sa\<lparr>hand := [spade Ace, spade Jack, spade Eight], score := 19\<rparr>"
  let ?g1 = "sampleDeal\<lparr>deck := butlast (take 46 createDeck),
            seats := (seats sampleDeal)(socketA \<mapsto> ?s1),
            message := socketA @ '' hits and gets 8 of Spades.''\<rparr>"
  have h: "handleHit sampleDeal socketA = Inr ?g1" by (rule sampleDeal_hit)
  have s1: "seats ?g1 socketA = Some ?s1" by simp
  have sc: "score ?s1 = 19" "score ?s1 \<le> 21" by simp_all
  from h s1 sc(2) have hc: "handleHit sampleDeal socketA = Inr ?g1 \<and>
      seats ?g1 socketA = Some ?s1 \<and> score ?s1 \<le> 21" by (intro conjI)
  note th = t0 [THEN conjunct1, THEN spec, THEN spec, THEN mp, OF hc]
  have hit: "currentTurn ?g1 = socketA" "turnIndex ?g1 = turnIndex sampleDeal"
    using th by simp_all
  from sampleDeal_stand
  have sc1: "handleStand sampleDeal socketA = Inr sampleTurnB \<or>
             (handleHit sampleDeal socketA = Inr sampleTurnB \<and>
              (\<exists>s1. seats sampleTurnB socketA = Some s1 \<and> score s1 > 21))" by (rule disjI1)
  note ts = t0 [THEN conjunct2, THEN conjunct1, THEN spec, THEN mp, OF sc1]
  have st: "nextStop sampleTurnB (turnIndex sampleDeal) = Some (turnIndex sampleTurnB)"
    using ts by (rule conjunct1)
  from sampleTurnB_stand
  have sc2: "handleStand sampleTurnB socketB = Inr sampleOver \<or>
             (handleHit sampleTurnB socketB = Inr sampleOver \<and>
              (\<exists>s1. seats sampleOver socketB = Some s1 \<and> score s1 > 21))" by (rule disjI1)
  note to = t1 [THEN conjunct2, THEN conjunct1, THEN spec, THEN mp, OF sc2]
  have ov: "nextStop sampleOver (turnIndex sampleTurnB) = Some (turnIndex sampleOver)"
    "currentTurn sampleOver = ''dealer'' \<longrightarrow>
       (\<forall>p \<in> set (players sampleOver). finished sampleOver p)"
    using to by blast+
  have o: "turnIndex sampleOver = 2" "currentTurn sampleOver = ''dealer''"
    "players sampleOver = [socketA, socketB]"
    by (simp_all add: sampleOver_def sampleTurnB_def sampleDeal_def)
  from ov(2) o(2,3) have fin: "finished sampleOver socketA" "finished sampleOver socketB"
    by simp_all
  have c1: "\<exists>s. seats sampleDeal socketA = Some s \<and> \<not> isStanding s \<and> \<not> isBusted s"
    using a(2,3,4) by (intro exI [of _ ?sa] conjI)
  have c2: "\<exists>s. seats sampleTurnB socketB = Some s \<and> \<not> isStanding s \<and> \<not> isBusted s"
    using b(2,3,4) by (intro exI [of _ ?sb] conjI)
  have c3: "\<exists>game1 s1. handleHit sampleDeal socketA = Inr game1 \<and>
      seats game1 socketA = Some s1 \<and> score s1 = 19 \<and>
      currentTurn game1 = socketA \<and> turnIndex game1 = 0"
    using h s1 sc(1) hit(1) hit(2) [unfolded a(5)]
    by (intro exI [of _ ?g1] exI [of _ ?s1] conjI)
  have c4: "nextStop sampleTurnB 0 = Some 1" using st by (simp only: a(5) b(5))
  have c5: "nextStop sampleOver 1 = Some 2" using ov(1) by (simp only: b(5) o(1))
  show ?thesis
    using r0 a(1) a(5) c1 c3 sampleDeal_stand c4 b(5) b(1) r1 c2 sampleTurnB_stand c5 o(2)
      fin(1) fin(2)
    by (intro conjI)
qed

section \<open>Matchmaking\<close>


lemma requestMatch_self_pair:
  assumes "matchmakingQueue srv = [sid]"
  shows "requestMatch rnd srv sid = Inl TypeError"
proof -
  from initializeGame_returns obtain g where g: "initializeGame rnd sid sid = Inr g" by blast
  from initializeGame_fields(1) [OF g] have "find (\<lambda>i. i \<noteq> sid) (players g) = None" by simp
  then have "getGameStateForPlayer g sid = Inl TypeError"
    by (simp add: getGameStateForPlayer_def split: option.splits)
  with g assms show ?thesis by (simp add: requestMatch_def bindE_def)
qed

section \<open>Disconnects\<close>



lemma sample_ids_c [simp]:
  "socketC \<noteq> socketA" "socketC \<noteq> socketB" "socketA \<noteq> socketC" "socketB \<noteq> socketC"
  by (simp_all add: socketA_def socketB_def socketC_def)







section \<open>The final broadcast\<close>

lemma getGameStateForPlayer_id:
  "getGameStateForPlayer g p = Inr v \<Longrightarrow> pv_id (playerState v) = p"
  unfolding getGameStateForPlayer_def
  by (auto split: option.splits list.splits simp del: getCardValue.simps)

lemma sampleOver_fields:
  "players sampleOver = [socketA, socketB]" "gameOver sampleOver"
  "hand (dealer sampleOver) = [spade Queen, spade Nine]" "score (dealer sampleOver) = 19"
  "gameOverMessage sampleOver = ''Round over! undefined wins! undefined wins! ''"
  "gameOverType sampleOver = ''win''" "twoPlayers sampleOver"
  by (auto simp: sampleOver_def sampleTurnB_def sampleDeal_def twoPlayers_def)

lemma viewAt_Inr:
  "viewAt g k = Inr (to, v) \<Longrightarrow>
     k < length (players g) \<and> to = players g ! k \<and> getGameStateForPlayer g to = Inr v"
  by (auto simp: viewAt_def bindE_Inr split: if_splits)

lemma final_broadcast_is_first_view:
  assumes run: "playerAction srv sid rooms act = Inr (srv', emits)"
    and sent: "(room, PvpGameOver m t fv) \<in> set emits"
  shows "\<exists>g v. (room, g) \<in> set (activeGames srv') \<and> gameOver g \<and> fv = Some v \<and>
           getGameStateForPlayer g (players g ! 0) = Inr v \<and>
           dv_hand (dealerState v) = [Face (hd (hand (dealer g))), Placeholder] \<and>
           pv_id (playerState v) = players g ! 0"
proof -
  from run sent obtain rid where r: "find (\<lambda>room. take 5 room = ''game-'') rooms = Some rid"
    by (cases "find (\<lambda>room. take 5 room = ''game-'') rooms") (auto simp: playerAction_def)
  from run sent r obtain g0 where g0: "map_of (activeGames srv) rid = Some g0"
    by (cases "map_of (activeGames srv) rid") (auto simp: playerAction_def)
  from run sent r g0 have turn: "currentTurn g0 = sid"
    by (auto simp: playerAction_def split: if_splits)
  let ?step = "if act = ''hit'' then handleHit g0 sid
               else if act = ''stand'' then handleStand g0 sid else Inr g0"
  from run r g0 turn obtain g1 where g1: "?step = Inr g1"
    by (cases ?step) (simp_all add: playerAction_def bindE_def)
  from run r g0 turn g1 obtain to0 v0 where v0: "viewAt g1 0 = Inr (to0, v0)"
    by (cases "viewAt g1 0") (auto simp: playerAction_def bindE_def)
  from run r g0 turn g1 v0 obtain to1 v1 where v1: "viewAt g1 1 = Inr (to1, v1)"
    by (cases "viewAt g1 1") (auto simp: playerAction_def bindE_def)
  have over: "gameOver g1"
  proof (rule ccontr)
    assume "\<not> gameOver g1"
    with run r g0 turn g1 v0 v1 have "emits = [(to0, PvpGameUpdate v0), (to1, PvpGameUpdate v1)]"
      by (simp add: playerAction_def bindE_def)
    with sent show False by auto
  qed
  with run r g0 turn g1 v0 v1 have res:
    "srv' = srv\<lparr>activeGames := setGame rid g1 (activeGames srv)\<rparr>"
    "emits = [(to0, PvpGameUpdate v0), (to1, PvpGameUpdate v1),
        (rid, PvpGameOver (gameOverMessage g1) (gameOverType g1) (Some v0))]"
    by (simp_all add: playerAction_def bindE_def)
  from sent res(2) have fv: "room = rid" "fv = Some v0" by auto
  from g0 have mem: "(rid, g0) \<in> set (activeGames srv)" by (rule map_of_SomeD)
  then have "rid \<in> fst ` set (activeGames srv)" by force
  moreover from mem have "(rid, g1) \<in>
      (\<lambda>(r, g). if r = rid then (r, g1) else (r, g)) ` set (activeGames srv)"
    by (rule rev_image_eqI) simp
  ultimately have "(rid, g1) \<in> set (activeGames srv')"
    by (simp add: res(1) setGame_def)
  moreover from viewAt_Inr [OF v0] have p: "to0 = players g1 ! 0"
    "getGameStateForPlayer g1 (players g1 ! 0) = Inr v0" by auto
  moreover from getGameStateForPlayer_dealer(2) [OF p(2)]
  have "dv_hand (dealerState v0) = [Face (hd (hand (dealer g1))), Placeholder]" by simp
  moreover from getGameStateForPlayer_id [OF p(2)] have "pv_id (playerState v0) = players g1 ! 0" .
  ultimately show ?thesis using over fv by blast
qed

lemma getCardValue_first: "getCardValue c 0 \<le> 11"
  by (cases "rank c") simp_all

lemma dealerLoop_total:
  "dealerLoop g = Inr g' \<Longrightarrow> 17 \<le> score (dealer g')"
proof (induction g rule: dealerLoop.induct)
  case (1 g)
  show ?case
  proof (cases "score (dealer g) < 17")
    case False
    with "1.prems" have "g' = g" by (subst (asm) dealerLoop.simps) simp
    with False show ?thesis by simp
  next
    case True
    show ?thesis
    proof (cases "deck g = []")
      case True
      with \<open>score (dealer g) < 17\<close> "1.prems" show ?thesis
        by (subst (asm) dealerLoop.simps) simp
    next
      case False
      let ?c = "last (deck g)"
      let ?g1 = "g\<lparr>deck := butlast (deck g),
                   dealer := (dealer g)\<lparr>hand := hand (dealer g) @ [?c],
                                         score := calculateHandTotal (hand (dealer g) @ [?c])\<rparr>,
                   message := message g @ '' Dealer hits and gets '' @
                        rankText (rank ?c) @ '' of '' @ suitText (suit ?c) @ ''.''\<rparr>"
      from "1.prems" True False have run: "dealerLoop ?g1 = Inr g'"
        by (subst (asm) dealerLoop.simps) (simp add: Let_def)
      from "1.IH" [OF True False refl refl run] show ?thesis .
    qed
  qed
qed

lemma handleDealerTurn_total:
  assumes "handleDealerTurn g = Inr g'"
  shows "17 \<le> score (dealer g')"
proof -
  from assms obtain g1 where loop: "dealerLoop (g\<lparr>message := ''Dealer's turn...'',
                dealer := (dealer g)\<lparr>score := calculateHandTotal (hand (dealer g))\<rparr>\<rparr>) = Inr g1"
    and fin: "score (dealer g') = score (dealer g1)"
    unfolding handleDealerTurn_def bindE_Inr by (auto split: if_splits)
  from dealerLoop_total [OF loop] fin show ?thesis by simp
qed

lemma advanceTurn_played:
  assumes "advanceTurn g = Inr g'" and "dealerPlayed g"
  shows "dealerPlayed g'"
proof -
  from advanceTurn_frame [OF assms(1)] obtain dealt where
    "hand (dealer g') = hand (dealer g) @ rev dealt" by blast
  with assms(2) have len: "2 \<le> length (hand (dealer g'))" by (simp add: dealerPlayed_def)
  from assms(1) obtain k where
    k: "skipTurns g ((turnIndex g + 1) mod length (turnOrder g)) = Some (Inr k)"
    unfolding advanceTurn_def by (auto split: option.splits sum.splits)
  let ?g1 = "g\<lparr>turnIndex := k, currentTurn := turnOrder g ! k\<rparr>"
  show ?thesis
  proof (cases "turnOrder g ! k = ''dealer''")
    case False
    with assms(1) k have "g' = ?g1\<lparr>message := ''It's '' @ currentTurn ?g1 @ '''s turn.''\<rparr>"
      unfolding advanceTurn_def by (simp add: Let_def)
    with assms(2) show ?thesis by (simp add: dealerPlayed_def)
  next
    case True
    with assms(1) k have "bindE (handleDealerTurn ?g1) determineGameOutcome = Inr g'"
      unfolding advanceTurn_def by (simp add: Let_def)
    then obtain g2 where d: "handleDealerTurn ?g1 = Inr g2" and o: "determineGameOutcome g2 = Inr g'"
      unfolding bindE_Inr by blast
    from determineGameOutcome_frame [OF o] have "dealer g' = dealer g2" by auto
    with handleDealerTurn_total [OF d] have "17 \<le> score (dealer g')" by simp
    with len show ?thesis by (simp add: dealerPlayed_def)
  qed
qed

lemma handleHit_played:
  assumes "handleHit g p = Inr g'" and "dealerPlayed g"
  shows "dealerPlayed g'"
  using assms(1)
proof (cases rule: handleHit_cases)
  case ignored with assms(2) show ?thesis by simp
next
  case (drew s)
  from assms(2) show ?thesis by (simp add: drew(7) dealerPlayed_def)
next
  case (bust s)
  show ?thesis
    by (rule advanceTurn_played [OF bust(7)]) (use assms(2) in \<open>simp add: dealerPlayed_def\<close>)
qed

lemma handleStand_played:
  assumes "handleStand g p = Inr g'" and "dealerPlayed g"
  shows "dealerPlayed g'"
  using assms(1)
proof (cases rule: handleStand_cases)
  case ignored with assms(2) show ?thesis by simp
next
  case (stood s)
  show ?thesis
    by (rule advanceTurn_played [OF stood(5)]) (use assms(2) in \<open>simp add: dealerPlayed_def\<close>)
qed

lemma evolves_played:
  assumes "evolves g0 g" and "dealerPlayed g0"
  shows "dealerPlayed g"
  using assms
proof (induction rule: evolves.induct)
  case (start g0) then show ?case .
next
  case (hit g0 g p g1)
  then show ?case using handleHit_played [of g p g1] by blast
next
  case (stand g0 g p g1)
  then show ?case using handleStand_played [of g p g1] by blast
qed

lemma reachable_played:
  assumes "reachable g"
  shows "dealerPlayed g"
proof -
  from assms obtain rnd p1 p2 g0 where
    i: "initializeGame rnd p1 p2 = Inr g0" and e: "evolves g0 g"
    unfolding reachable_def by blast
  from shuffled_last_six [of rnd] obtain rest c6 c5 c4 c3 c2 c1 where
    sh: "shuffleDeck rnd createDeck = rest @ [c6, c5, c4, c3, c2, c1]" by blast
  from initializeGame_deal [OF sh, of p1 p2] i have "dealerPlayed g0"
    by (auto simp: dealerPlayed_def)
  with e show ?thesis by (rule evolves_played)
qed

lemma reachable_twoPlayers:
  assumes "reachable g" and "distinct (players g)"
  shows "twoPlayers g"
proof -
  from reachable_inv [OF assms(1)] obtain p1 p2 where
    "players g = [p1, p2]" "dom (seats g) = {p1, p2}"
    by (rule turnsInOrderE)
  with assms(2) show ?thesis by (simp add: twoPlayers_def)
qed

lemma sampleOver_reachable: "reachable sampleOver"
proof -
  have "evolves sampleDeal sampleTurnB"
    using evolves.start sampleDeal_stand by (rule evolves.stand)
  then have "evolves sampleDeal sampleOver"
    using sampleTurnB_stand by (rule evolves.stand)
  then show ?thesis
    unfolding reachable_def using sampleDeal_dealt sample_ids(3,4) by blast
qed

lemma playerAction_without_rooms: "playerAction srv socketId [] action = Inr (srv, [])"
  by (simp add: playerAction_def)

text \<open>
  Claim C3. The claim is that once the round has resolved, the view sent with \<open>pvpGameOver\<close>
  is unmasked and is each recipient's own: it shows the dealer's real second card and true
  total. The view the handler sends is the value of
  \<open>getGameStateForPlayer (game, game.players[0])\<close>, and the comment beside that expression
  says the same as the claim (\<open>Send final state unmasked\<close>). The expression is taken here on
  its own, for every resolved session that play can reach. The dealer of such a session holds
  at least two cards and a stored total of at least 17. Whatever view \<open>getGameStateForPlayer\<close>
  returns of it, for any recipient, shows as the dealer's hand the first card and the
  placeholder, has the hide flag set, and gives as the dealer's score the value of the first
  card alone, which is below the stored total: the second card and the true total are not in
  the view. For a session of two different identities the expression does return a view, and
  it is the first player's, whoever receives it.

  Where \<open>socket.rooms\<close> is a \<open>Set\<close> the handler finds no room and returns before it sends
  anything (lemma \<open>playerAction_without_rooms\<close>); whenever it does send \<open>pvpGameOver\<close> with
  a view, the view is the value of this expression (lemma \<open>final_broadcast_is_first_view\<close>).
\<close>

theorem final_view_masked:
  assumes "reachable game" and "gameOver game"
  shows "\<exists>first second rest.
           hand (dealer game) = first # second # rest \<and>
           (\<forall>recipient view. getGameStateForPlayer game recipient = Inr view \<longrightarrow>
              dealerState view =
                \<lparr>dv_hand = [Face first, Placeholder], dv_score = getCardValue first 0,
                 dv_hideSecondCard = True\<rparr> \<and>
              dv_score (dealerState view) < score (dealer game) \<and>
              dealerState view \<noteq> unmaskedDealer game) \<and>
           (distinct (players game) \<longrightarrow>
              (\<exists>finalGame. getGameStateForPlayer game (players game ! 0) = Inr finalGame \<and>
                 pv_id (playerState finalGame) = players game ! 0))"
proof -
  from reachable_played [OF assms(1)] assms(2)
  have len: "2 \<le> length (hand (dealer game))" and tot: "17 \<le> score (dealer game)"
    by (simp_all add: dealerPlayed_def)
  from len obtain first second rest where h: "hand (dealer game) = first # second # rest"
    by (cases "hand (dealer game)"; cases "tl (hand (dealer game))") auto
  have masked: "dealerState view =
                \<lparr>dv_hand = [Face first, Placeholder], dv_score = getCardValue first 0,
                 dv_hideSecondCard = True\<rparr> \<and>
              dv_score (dealerState view) < score (dealer game) \<and>
              dealerState view \<noteq> unmaskedDealer game"
    if v: "getGameStateForPlayer game recipient = Inr view" for recipient view
  proof -
    from getGameStateForPlayer_dealer(2) [OF v] h
    have d: "dealerState view =
                \<lparr>dv_hand = [Face first, Placeholder], dv_score = getCardValue first 0,
                 dv_hideSecondCard = True\<rparr>" by simp
    have "getCardValue first 0 \<le> 11" by (rule getCardValue_first)
    with tot have lt: "dv_score (dealerState view) < score (dealer game)"
      by (simp add: d)
    have "dealerState view \<noteq> unmaskedDealer game" by (simp add: d unmaskedDealer_def)
    with d lt show ?thesis by (intro conjI)
  qed
  have returns: "\<exists>finalGame. getGameStateForPlayer game (players game ! 0) = Inr finalGame \<and>
                 pv_id (playerState finalGame) = players game ! 0"
    if dist: "distinct (players game)"
  proof -
    from reachable_twoPlayers [OF assms(1) dist] have tp: "twoPlayers game" .
    then have "players game ! 0 \<in> set (players game)" by (simp add: twoPlayers_def)
    moreover from h have "hand (dealer game) \<noteq> []" by simp
    ultimately obtain v where v: "getGameStateForPlayer game (players game ! 0) = Inr v"
      using getGameStateForPlayer_returns [OF tp] by blast
    from getGameStateForPlayer_id [OF v] v show ?thesis by blast
  qed
  show ?thesis
    apply (rule exI [of _ first], rule exI [of _ second], rule exI [of _ rest])
    using h masked returns by blast
qed

theorem final_view_masked_witness:
  "reachable sampleOver \<and> gameOver sampleOver \<and>
   hand (dealer sampleOver) = [spade Queen, spade Nine] \<and> score (dealer sampleOver) = 19 \<and>
   distinct (players sampleOver) \<and> players sampleOver ! 0 = socketA \<and>
   (\<exists>finalGame. getGameStateForPlayer sampleOver socketA = Inr finalGame \<and>
      dealerState finalGame =
        \<lparr>dv_hand = [Face (spade Queen), Placeholder], dv_score = 10,
         dv_hideSecondCard = True\<rparr> \<and>
      pv_id (playerState finalGame) = socketA)"
proof -
  note o = sampleOver_fields
  have dist: "distinct (players sampleOver)" and p0: "players sampleOver ! 0 = socketA"
    by (simp_all add: o)
  from final_view_masked [OF sampleOver_reachable o(2)]
  obtain first second rest where h: "hand (dealer sampleOver) = first # second # rest"
    and m: "\<forall>recipient view. getGameStateForPlayer sampleOver recipient = Inr view \<longrightarrow>
              dealerState view =
                \<lparr>dv_hand = [Face first, Placeholder], dv_score = getCardValue first 0,
                 dv_hideSecondCard = True\<rparr> \<and>
              dv_score (dealerState view) < score (dealer sampleOver) \<and>
              dealerState view \<noteq> unmaskedDealer sampleOver"
    and r: "distinct (players sampleOver) \<longrightarrow>
              (\<exists>finalGame. getGameStateForPlayer sampleOver (players sampleOver ! 0) = Inr finalGame \<and>
                 pv_id (playerState finalGame) = players sampleOver ! 0)"
    by blast
  from h have f: "first = spade Queen" by (simp add: o)
  from r dist p0 obtain v where v: "getGameStateForPlayer sampleOver socketA = Inr v"
    and i: "pv_id (playerState v) = socketA" by auto
  from m v have "dealerState v =
                \<lparr>dv_hand = [Face first, Placeholder], dv_score = getCardValue first 0,
                 dv_hideSecondCard = True\<rparr>" by blast
  then have d: "dealerState v =
        \<lparr>dv_hand = [Face (spade Queen), Placeholder], dv_score = 10,
         dv_hideSecondCard = True\<rparr>" by (simp add: f spade_def)
  from v d i have e: "\<exists>finalGame. getGameStateForPlayer sampleOver socketA = Inr finalGame \<and>
      dealerState finalGame =
        \<lparr>dv_hand = [Face (spade Queen), Placeholder], dv_score = 10,
         dv_hideSecondCard = True\<rparr> \<and>
      pv_id (playerState finalGame) = socketA" by blast
  show ?thesis using sampleOver_reachable o(2) o(3) o(4) dist p0 e by (intro conjI)
qed

end
